theory Spec2Isabelle
  imports Complex_Main "HOL-Library.Word" "HOL-Library.Multiset" "HOL-Library.Product_Lexorder"
begin

unbundle bit_operations_syntax

section \<open>Data model of scrambler.cpp\<close>

text \<open>
  Modelled from the spec: the declaration of \<^verbatim>\<open>scrambler::node\<close> is in scrambler.h, which
  is not among the sources.  The spec's Node and the uses in scrambler.cpp give its
  members: the symbol, the flags \<^verbatim>\<open>is_name\<close> and \<^verbatim>\<open>needs_parens\<close>, and the children, which
  the node owns (\<^verbatim>\<open>del_node\<close> deletes every child exactly once, so the structure is a
  tree).
\<close>

datatype node = Node (symbol: string) (is_name: bool) (needs_parens: bool) (children: "node list")

text \<open>
  An entry of the vector \<^verbatim>\<open>commands\<close> is a \<^verbatim>\<open>node *\<close>: the pointer value together
  with the tree it points to.  The pointer value matters where the code compares
  pointers (the \<^verbatim>\<open>std::sort\<close> over \<^verbatim>\<open>std::pair<uint64_t, node*>\<close> in
  \<^verbatim>\<open>sort_declarations\<close>).
\<close>

type_synonym cmd = "nat \<times> node"

datatype annotation_mode = none | pattern | all

text \<open>
  The process-wide variables of scrambler.cpp.  \<open>ranks_file\<close> stands for the file
  named by \<^verbatim>\<open>ranks_file_name\<close>: \<open>None\<close> when it cannot be opened, otherwise the
  values that \<^verbatim>\<open>file >> output[i]\<close> extracts one after the other until the first
  failure (only the order of rank values is used, so a finite float is represented by
  the real number it denotes).  \<open>annotation_n\<close> is the static counter of
  \<^verbatim>\<open>make_annotation_name\<close> and \<open>cout\<close> the text written to the output stream.
\<close>

record globals =
  seed :: "64 word"
  no_scramble :: bool
  gen_ucore :: bool
  gen_mval :: bool
  gen_proof :: bool
  ranks_file :: "real list option"
  name_ids :: "string \<rightharpoonup> 64 word"
  next_name_id :: "64 word"
  name_ids_sorted :: "string \<rightharpoonup> 64 word"
  next_name_id_sorted :: "64 word"
  commands :: "cmd list"
  annotation_n :: "64 word"
  cout :: string

text \<open>The values of the variables when the program starts.\<close>

definition initial_globals :: globals where
  "initial_globals =
     \<lparr>seed = 0, no_scramble = False, gen_ucore = False, gen_mval = False, gen_proof = False,
      ranks_file = None, name_ids = Map.empty, next_name_id = 1,
      name_ids_sorted = Map.empty, next_name_id_sorted = 1, commands = [],
      annotation_n = 1, cout = []\<rparr>"

text \<open>
  What the code can do besides returning: throw \<^verbatim>\<open>std::invalid_argument\<close>, or run
  into undefined behaviour (an access outside a vector, a division by zero).
\<close>

datatype error = Invalid_argument string | Undefined_behaviour

section \<open>Building nodes and commands\<close>

text \<open>
  \<^verbatim>\<open>make_node(s, n1, n2)\<close> (the children that are given, in a list; the empty text for a
  null \<^verbatim>\<open>s\<close>), \<^verbatim>\<open>make_name_node(s, n1)\<close>, and \<^verbatim>\<open>add_node(s, n1, n2, n3, n4)\<close>, which
  appends the new command to \<^verbatim>\<open>commands\<close>; \<open>p\<close> is the address \<^verbatim>\<open>new node\<close> returns.
\<close>

definition make_node :: "string \<Rightarrow> node list \<Rightarrow> node" where
  "make_node s cs = Node s False (\<not> (s \<noteq> [] \<and> cs = [])) cs"

definition make_name_node :: "string \<Rightarrow> node list \<Rightarrow> node" where
  "make_name_node s cs = Node s True (cs \<noteq> []) cs"

definition add_node :: "nat \<Rightarrow> string \<Rightarrow> node list \<Rightarrow> globals \<Rightarrow> globals" where
  "add_node p s cs st = st\<lparr>commands := commands st @ [(p, Node s False True cs)]\<rparr>"

section \<open>Pseudo-random number generator\<close>

text \<open>The constants \<^verbatim>\<open>a\<close>, \<^verbatim>\<open>c\<close> and \<^verbatim>\<open>mask\<close> of the generator.\<close>

definition a_c :: "64 word" where
  "a_c = 25214903917"

definition c_c :: "64 word" where
  "c_c = 11"

text \<open>\<^verbatim>\<open>const uint64_t mask = ~(2ULL << 48);\<close>\<close>

definition mask_c :: "64 word" where
  "mask_c = NOT (push_bit 48 2)"

text \<open>\<^verbatim>\<open>seed = s\<close> converts the \<^verbatim>\<open>int\<close> to \<^verbatim>\<open>uint64_t\<close>, that is modulo \<open>2 ^ 64\<close>.\<close>

definition set_seed :: "int \<Rightarrow> globals \<Rightarrow> globals" where
  "set_seed s st = st\<lparr>seed := word_of_int s\<rparr>"

text \<open>
  \<^verbatim>\<open>next_rand_int\<close>: the state is updated first, then reduced modulo the bound.  The
  bound is a \<^verbatim>\<open>size_t\<close>; the remainder by zero is undefined behaviour.
\<close>

definition next_rand_int :: "nat \<Rightarrow> globals \<Rightarrow> error + (nat \<times> globals)" where
  "next_rand_int upper_bound st =
     (let seed' = ((seed st * a_c) + c_c) AND mask_c in
      if upper_bound = 0 then Inl Undefined_behaviour
      else Inr (unat (drop_bit 16 seed') mod upper_bound, st\<lparr>seed := seed'\<rparr>))"

section \<open>Symbol registries\<close>

text \<open>
  \<^verbatim>\<open>unquote\<close>: a text that starts with \<open>|\<close>, ends with \<open>|\<close> and has at least two
  characters loses both; every other text is returned as it is.
\<close>

definition unquote :: "string \<Rightarrow> string" where
  "unquote n =
     (if n = [] \<or> hd n \<noteq> CHR ''|'' then n
      else if length n > 1 \<and> hd n = CHR ''|'' \<and> last n = CHR ''|''
           then take (length n - 2) (drop 1 n)
           else n)"

text \<open>
  \<^verbatim>\<open>set_new_name\<close> and \<^verbatim>\<open>get_name_id\<close> on the map \<^verbatim>\<open>name_ids\<close>.  The lookup is
  \<^verbatim>\<open>name_ids[n]\<close>: \<^verbatim>\<open>operator[]\<close> of \<^verbatim>\<open>std::unordered_map\<close> inserts the key with the
  value 0 when it is absent, so the lookup returns the new state as well.
\<close>

definition set_new_name :: "string \<Rightarrow> globals \<Rightarrow> globals" where
  "set_new_name n st =
     (let n' = unquote n in
      if name_ids st n' = None
      then st\<lparr>name_ids := (name_ids st)(n' \<mapsto> next_name_id st),
              next_name_id := next_name_id st + 1\<rparr>
      else st)"

definition get_name_id :: "string \<Rightarrow> globals \<Rightarrow> 64 word \<times> globals" where
  "get_name_id n st =
     (let n' = unquote n in
      case name_ids st n' of
        None \<Rightarrow> (0, st\<lparr>name_ids := (name_ids st)(n' \<mapsto> 0)\<rparr>)
      | Some v \<Rightarrow> (v, st))"

text \<open>The second registry, \<^verbatim>\<open>name_ids_sorted\<close>, has the same two operations.\<close>

definition set_new_name_sorted :: "string \<Rightarrow> globals \<Rightarrow> globals" where
  "set_new_name_sorted n st =
     (let n' = unquote n in
      if name_ids_sorted st n' = None
      then st\<lparr>name_ids_sorted := (name_ids_sorted st)(n' \<mapsto> next_name_id_sorted st),
              next_name_id_sorted := next_name_id_sorted st + 1\<rparr>
      else st)"

definition get_name_id_sorted :: "string \<Rightarrow> globals \<Rightarrow> 64 word \<times> globals" where
  "get_name_id_sorted n st =
     (let n' = unquote n in
      case name_ids_sorted st n' of
        None \<Rightarrow> (0, st\<lparr>name_ids_sorted := (name_ids_sorted st)(n' \<mapsto> 0)\<rparr>)
      | Some v \<Rightarrow> (v, st))"

text \<open>
  Sequences of registry operations, as the parser and the printer issue them:
  \<open>declare_all\<close> runs \<^verbatim>\<open>set_new_name\<close> on each text in turn, \<open>run_ops\<close> runs any
  mix of the four operations (the value a lookup returns is dropped, its effect on
  the map is kept).
\<close>

fun declare_all :: "string list \<Rightarrow> globals \<Rightarrow> globals" where
  "declare_all [] st = st"
| "declare_all (n # ns) st = declare_all ns (set_new_name n st)"

datatype registry_op =
  Declare string | Lookup string | Declare_sorted string | Lookup_sorted string

fun run_op :: "registry_op \<Rightarrow> globals \<Rightarrow> globals" where
  "run_op (Declare n) st = set_new_name n st"
| "run_op (Lookup n) st = snd (get_name_id n st)"
| "run_op (Declare_sorted n) st = set_new_name_sorted n st"
| "run_op (Lookup_sorted n) st = snd (get_name_id_sorted n st)"

fun run_ops :: "registry_op list \<Rightarrow> globals \<Rightarrow> globals" where
  "run_ops [] st = st"
| "run_ops (x # xs) st = run_ops xs (run_op x st)"

text \<open>The distinct unquoted symbols of a sequence of declarations, each at the place of
  its first declaration.\<close>

definition first_declared :: "string list \<Rightarrow> string list" where
  "first_declared ns = rev (remdups (rev (map unquote ns)))"

text \<open>The state of the first registry after the symbols \<open>D\<close> have been declared, in this
  order, and nothing else has touched it.\<close>

definition reg_inv :: "string list \<Rightarrow> globals \<Rightarrow> bool" where
  "reg_inv D st \<longleftrightarrow>
     dom (name_ids st) = set D \<and>
     (\<forall>i<length D. name_ids st (D ! i) = Some (word_of_nat (Suc i))) \<and>
     next_name_id st = word_of_nat (Suc (length D))"

section \<open>Shuffling a window of a vector\<close>

text \<open>Arithmetic on \<^verbatim>\<open>size_t\<close> values (below \<open>2 ^ 64\<close>) wraps around.\<close>

definition size_t_add :: "nat \<Rightarrow> nat \<Rightarrow> nat" where
  "size_t_add x y = (x + y) mod 2 ^ 64"

definition size_t_sub :: "nat \<Rightarrow> nat \<Rightarrow> nat" where
  "size_t_sub x y = (x + 2 ^ 64 - y) mod 2 ^ 64"

text \<open>Without wrap-around they are the sum and the difference.\<close>

lemma size_t_add_small: "x + y < 2 ^ 64 \<Longrightarrow> size_t_add x y = x + y"
  unfolding size_t_add_def by (rule mod_less)

lemma size_t_sub_small:
  assumes "y \<le> x" "x < 2 ^ 64"
  shows "size_t_sub x y = x - y"
proof -
  have "x + 2 ^ 64 - y = (x - y) + 2 ^ 64" using assms(1) by linarith
  then have "(x + 2 ^ 64 - y) mod 2 ^ 64 = ((x - y) + 2 ^ 64) mod 2 ^ 64"
    by (rule arg_cong)
  also have "\<dots> = (x - y) mod 2 ^ 64" by (rule mod_add_self2)
  also have "\<dots> = x - y" using assms(2) by (intro mod_less) linarith
  finally show ?thesis unfolding size_t_sub_def .
qed

text \<open>\<^verbatim>\<open>std::swap((*v)[i], (*v)[j])\<close> for two positions inside the vector.\<close>

definition swap_at :: "nat \<Rightarrow> nat \<Rightarrow> 'a list \<Rightarrow> 'a list" where
  "swap_at i j v = v[i := v ! j, j := v ! i]"

text \<open>
  The loop \<^verbatim>\<open>for (size_t i = n-1; i > 0; --i)\<close> of \<^verbatim>\<open>shuffle_list\<close>, by recursion on
  \<open>i\<close>.  The elements are only moved, so the element type is left open (the code has
  \<^verbatim>\<open>node *\<close>).  Reading or writing outside the vector is undefined behaviour.
\<close>

fun shuffle_loop :: "nat \<Rightarrow> nat \<Rightarrow> 'a list \<Rightarrow> globals \<Rightarrow> error + ('a list \<times> globals)" where
  "shuffle_loop 0 start v st = Inr (v, st)"
| "shuffle_loop (Suc i) start v st =
     (case next_rand_int (size_t_add (Suc i) 1) st of
        Inl e \<Rightarrow> Inl e
      | Inr (r, st') \<Rightarrow>
          (let x = size_t_add (Suc i) start; y = size_t_add r start in
           if x < length v \<and> y < length v
           then shuffle_loop i start (swap_at x y v) st'
           else Inl Undefined_behaviour))"

definition shuffle_list :: "'a list \<Rightarrow> nat \<Rightarrow> nat \<Rightarrow> globals \<Rightarrow> error + ('a list \<times> globals)" where
  "shuffle_list v start end' st =
     (if \<not> no_scramble st
      then (let n = size_t_sub end' start in shuffle_loop (size_t_sub n 1) start v st)
      else Inr (v, st))"

section \<open>Reordering a window by ranks\<close>

text \<open>
  The overload of \<^verbatim>\<open>shuffle_list\<close> that takes a vector of ranks.  \<^verbatim>\<open>std::sort\<close> is the
  library routine: it is the parameter \<open>std_sort\<close>, called with the comparison and the
  vector to sort, and returns the sorted vector.  For elements that compare equal the
  C++ standard leaves the resulting order open.  The comparison reads \<^verbatim>\<open>ranks[i]\<close> for
  every index as soon as there are two indices; \<^verbatim>\<open>temp\<close> is filled from the window and
  written back over it.
\<close>

definition shuffle_list_ranks ::
  "((nat \<Rightarrow> nat \<Rightarrow> bool) \<Rightarrow> nat list \<Rightarrow> nat list) \<Rightarrow> 'a list \<Rightarrow> nat \<Rightarrow> nat \<Rightarrow> real list
     \<Rightarrow> error + 'a list" where
  "shuffle_list_ranks std_sort v start end' ranks =
     (let n = size_t_sub end' start;
          indices = std_sort (\<lambda>i j. ranks ! i < ranks ! j) [0..<n];
          temp = map (\<lambda>i. v ! (start + indices ! i)) [0..<n]
      in if (n \<le> 1 \<or> n \<le> length ranks) \<and> (n = 0 \<or> start + n \<le> length v) \<and>
            length indices = n \<and> list_all (\<lambda>i. i < n) indices
         then Inr (take start v @ temp @ drop (start + n) v)
         else Inl Undefined_behaviour)"

text \<open>
  One sorting routine, for running the model: insertion sort with a comparison, from
  the left (what \<^verbatim>\<open>std::sort\<close> of libstdc++ does on vectors of at most 16 elements).
\<close>

fun insert_by :: "('a \<Rightarrow> 'a \<Rightarrow> bool) \<Rightarrow> 'a \<Rightarrow> 'a list \<Rightarrow> 'a list" where
  "insert_by lt x [] = [x]"
| "insert_by lt x (y # ys) = (if lt x y then x # y # ys else y # insert_by lt x ys)"

fun insertion_sort_from :: "('a \<Rightarrow> 'a \<Rightarrow> bool) \<Rightarrow> 'a list \<Rightarrow> 'a list \<Rightarrow> 'a list" where
  "insertion_sort_from lt done [] = done"
| "insertion_sort_from lt done (x # xs) = insertion_sort_from lt (insert_by lt x done) xs"

definition insertion_sort :: "('a \<Rightarrow> 'a \<Rightarrow> bool) \<Rightarrow> 'a list \<Rightarrow> 'a list" where
  "insertion_sort lt xs = insertion_sort_from lt [] xs"

section \<open>Filtering by an unsat core\<close>

text \<open>The number of nodes of a tree, the measure of the traversals below.\<close>

fun nodes :: "node \<Rightarrow> nat" where
  "nodes (Node s nm np cs) = Suc (sum_list (map nodes cs))"

text \<open>
  The inner loop of \<^verbatim>\<open>get_named_annot\<close> over the attributes \<^verbatim>\<open>children[1]\<close>,
  \<^verbatim>\<open>children[2]\<close>, ... of an annotation node: the first attribute \<^verbatim>\<open>:named\<close> that has a
  child gives the name.
\<close>

fun find_named :: "node list \<Rightarrow> string option" where
  "find_named [] = None"
| "find_named (attr # attrs) =
     (if symbol attr = '':named'' \<and> children attr \<noteq> []
      then Some (symbol (hd (children attr)))
      else find_named attrs)"

text \<open>
  The loop of \<^verbatim>\<open>get_named_annot\<close> on the stack \<^verbatim>\<open>to_process\<close>, whose top (\<^verbatim>\<open>back()\<close>) is the
  head of the list.  The set \<^verbatim>\<open>seen\<close> holds the addresses of the nodes visited; in a
  tree every node is reached once, so the test \<^verbatim>\<open>seen.insert(cur).second\<close> always
  succeeds and the model has no such set.
\<close>

function get_named_annot_loop :: "node list \<Rightarrow> string" where
  "get_named_annot_loop [] = []"
| "get_named_annot_loop (cur # to_process) =
     (if symbol cur = ''!''
      then (case find_named (drop 1 (children cur)) of
              Some name \<Rightarrow> name
            | None \<Rightarrow> get_named_annot_loop (take 1 (children cur) @ to_process))
      else get_named_annot_loop (rev (children cur) @ to_process))"
  by pat_completeness auto
termination
proof (relation "measure (\<lambda>ns. sum_list (map nodes ns))")
  show "wf (measure (\<lambda>ns. sum_list (map nodes ns)))" by simp
next
  fix cur :: node and to_process :: "node list"
  have "sum_list (map nodes (take 1 (children cur))) \<le> sum_list (map nodes (children cur))"
    by (cases "children cur") simp_all
  then show "(take 1 (children cur) @ to_process, cur # to_process)
      \<in> measure (\<lambda>ns. sum_list (map nodes ns))"
    by (cases cur) simp
next
  fix cur :: node and to_process :: "node list"
  show "(rev (children cur) @ to_process, cur # to_process)
      \<in> measure (\<lambda>ns. sum_list (map nodes ns))"
    by (cases cur) (simp add: rev_map [symmetric])
qed

definition get_named_annot :: "node \<Rightarrow> string" where
  "get_named_annot r = get_named_annot_loop [r]"

text \<open>
  \<^verbatim>\<open>filter_named\<close>: the loop over \<^verbatim>\<open>i\<close> that copies the commands to keep to the
  positions \<^verbatim>\<open>k\<close>, and the final \<^verbatim>\<open>commands.resize(k)\<close>.
\<close>

function filter_named_loop :: "string set \<Rightarrow> nat \<Rightarrow> nat \<Rightarrow> cmd list \<Rightarrow> nat \<times> cmd list" where
  "filter_named_loop to_keep i k cmds =
     (if i < length cmds
      then (let cur = cmds ! i;
                keep = (if symbol (snd cur) = ''assert''
                        then (let name = get_named_annot (snd cur)
                              in \<not> (name \<noteq> [] \<and> name \<notin> to_keep))
                        else True)
            in if keep then filter_named_loop to_keep (i + 1) (k + 1) (cmds[k := cur])
               else filter_named_loop to_keep (i + 1) k cmds)
      else (k, cmds))"
  by pat_completeness auto
termination
  by (relation "measure (\<lambda>(to_keep, i, k, cmds). length cmds - i)") auto

definition filter_named :: "string set \<Rightarrow> globals \<Rightarrow> globals" where
  "filter_named to_keep st =
     (case filter_named_loop to_keep 0 0 (commands st) of
        (k, cmds) \<Rightarrow> st\<lparr>commands := take k cmds\<rparr>)"

declare filter_named_loop.simps [simp del]

text \<open>The commands that \<^verbatim>\<open>filter_named\<close> keeps.\<close>

definition kept :: "string set \<Rightarrow> cmd \<Rightarrow> bool" where
  "kept K c \<longleftrightarrow> get_named_annot (snd c) = [] \<or> get_named_annot (snd c) \<in> K \<or>
      symbol (snd c) \<noteq> ''assert''"

section \<open>Reading the core file\<close>

text \<open>
  \<^verbatim>\<open>parse_core\<close> reads from a \<^verbatim>\<open>std::istream\<close>.  The stream is the library's; the model
  keeps the characters not yet read and the two state bits the code depends on, and
  follows the C++ standard for the two operations used:
  \<^item> \<^verbatim>\<open>src >> name\<close>: when the stream is not good (one of the bits is set) the failbit is set
    and \<^verbatim>\<open>name\<close> is left as it is; otherwise white space is skipped; when nothing is
    left, both bits are set and \<^verbatim>\<open>name\<close> is left as it is; otherwise \<^verbatim>\<open>name\<close> becomes
    the characters up to the next white space, and the eofbit is set when the end of
    the input stopped the reading;
  \<^item> \<^verbatim>\<open>src.get(c)\<close>: when the stream is not good the failbit is set; when nothing is left
    both bits are set; otherwise the next character is taken.
  The conversion of the stream to \<^verbatim>\<open>bool\<close> is \<open>\<not> failbit\<close>.
\<close>

record istream =
  rest :: string
  eofbit :: bool
  failbit :: bool

text \<open>\<^verbatim>\<open>isspace\<close> in the C locale: space, \<^verbatim>\<open>\t\<close>, \<^verbatim>\<open>\n\<close>, \<^verbatim>\<open>\v\<close>, \<^verbatim>\<open>\f\<close>, \<^verbatim>\<open>\r\<close>.\<close>

definition isspace :: "char \<Rightarrow> bool" where
  "isspace ch \<longleftrightarrow> ch = CHR '' '' \<or> ch = CHR 0x09 \<or> ch = CHR 0x0A \<or> ch = CHR 0x0B \<or>
     ch = CHR 0x0C \<or> ch = CHR 0x0D"

definition read_string :: "istream \<Rightarrow> string \<Rightarrow> istream \<times> string" where
  "read_string src name =
     (if eofbit src \<or> failbit src then (src\<lparr>failbit := True\<rparr>, name)
      else (let r = dropWhile isspace (rest src) in
            if r = [] then (src\<lparr>rest := [], eofbit := True, failbit := True\<rparr>, name)
            else (let r' = dropWhile (\<lambda>ch. \<not> isspace ch) r in
                  (src\<lparr>rest := r', eofbit := (r' = [])\<rparr>, takeWhile (\<lambda>ch. \<not> isspace ch) r))))"

definition get_char :: "istream \<Rightarrow> istream \<times> char option" where
  "get_char src =
     (if eofbit src \<or> failbit src then (src\<lparr>failbit := True\<rparr>, None)
      else (case rest src of
              [] \<Rightarrow> (src\<lparr>eofbit := True, failbit := True\<rparr>, None)
            | ch # r \<Rightarrow> (src\<lparr>rest := r\<rparr>, Some ch)))"

text \<open>
  The loop \<^verbatim>\<open>while (src.get(c) && c != '(')\<close>: the result is \<open>False\<close> when the body
  returns false, \<open>True\<close> when the loop ends.
\<close>

function skip_to_paren :: "istream \<Rightarrow> bool \<times> istream" where
  "skip_to_paren src =
     (case get_char src of
        (src', None) \<Rightarrow> (True, src')
      | (src', Some ch) \<Rightarrow>
          if ch \<noteq> CHR ''(''
          then (if \<not> isspace ch then (False, src') else skip_to_paren src')
          else (True, src'))"
  by pat_completeness auto
termination
  apply (relation "measure (\<lambda>src. length (rest src))")
  apply simp
  apply (auto simp: get_char_def split: if_splits list.splits)
  done

text \<open>Reading a word takes at least one character.\<close>

lemma token_shrinks:
  assumes "x \<in> set s" "\<not> isspace x"
  shows "length (dropWhile (\<lambda>ch. \<not> isspace ch) (dropWhile isspace s)) < length s"
proof -
  have "dropWhile isspace s \<noteq> []" using assms by (auto simp: dropWhile_eq_Nil_conv)
  then obtain ch r0 where c: "dropWhile isspace s = ch # r0" "\<not> isspace ch"
    by (metis hd_dropWhile list.exhaust_sel)
  have "length (dropWhile (\<lambda>ch. \<not> isspace ch) (ch # r0)) \<le> length r0"
    using c(2) by (simp add: length_dropWhile_le)
  moreover have "length (ch # r0) \<le> length s"
    using length_dropWhile_le [of isspace s] c(1) by simp
  ultimately show ?thesis using c(1) by simp
qed

text \<open>
  The loop \<^verbatim>\<open>while (src && !done)\<close>; \<open>finished\<close> is the variable \<^verbatim>\<open>done\<close>, \<open>name\<close> is the variable \<^verbatim>\<open>name\<close>, which keeps its
  value from one reading to the next, and \<open>names\<close> is the set \<^verbatim>\<open>out\<close>.  The result is
  \<open>False\<close> when the body returns false.
\<close>

function read_names :: "istream \<Rightarrow> bool \<Rightarrow> string \<Rightarrow> string set \<Rightarrow> bool \<times> string set" where
  "read_names src finished name names =
     (if \<not> failbit src \<and> \<not> finished
      then (case read_string src name of
              (src', name') \<Rightarrow>
                if name' = [] then (False, names)
                else (let finished' = (last name' = CHR '')'');
                          name'' = (if finished' then butlast name' else name')
                      in read_names src' finished' name''
                           (if name'' \<noteq> [] then insert name'' names else names)))
      else (True, names))"
  by pat_completeness auto
termination
  apply (relation "measure (\<lambda>(src, finished, name, names).
    if failbit src \<or> finished then 0 else if eofbit src then 1 else 2 + length (rest src))")
  apply simp
  apply (auto simp: read_string_def Let_def token_shrinks split: if_splits)
  done

text \<open>
  \<^verbatim>\<open>parse_core\<close>, with the result and the set of names.  The line of names that it
  writes to \<^verbatim>\<open>std::cout\<close> before returning true is not part of the model.
\<close>

declare read_names.simps [simp del]

definition parse_core :: "istream \<Rightarrow> string set \<Rightarrow> bool \<times> string set" where
  "parse_core src names =
     (case read_string src [] of
        (src1, name) \<Rightarrow>
          if failbit src1 \<or> name \<noteq> ''unsat'' then (False, names)
          else (case skip_to_paren src1 of
                  (False, src2) \<Rightarrow> (False, names)
                | (True, src2) \<Rightarrow>
                    if failbit src2 then (False, names)
                    else read_names src2 False name names))"

text \<open>A file that has just been opened, with its contents.\<close>

definition opened :: "string \<Rightarrow> istream" where
  "opened s = \<lparr>rest = s, eofbit = False, failbit = False\<rparr>"

section \<open>Numbering names by first occurrence, and sorting declarations\<close>

text \<open>
  The test \<^verbatim>\<open>!new_n->symbol.empty() && new_n->is_name && new_n->symbol != "="\<close> of
  \<^verbatim>\<open>assign_num\<close> and \<^verbatim>\<open>find_var\<close>.
\<close>

definition is_var :: "node \<Rightarrow> bool" where
  "is_var n \<longleftrightarrow> symbol n \<noteq> [] \<and> is_name n \<and> symbol n \<noteq> ''=''"

text \<open>
  \<^verbatim>\<open>assign_num\<close>: the first loop registers the children that pass the test; the second
  loop descends into \<^verbatim>\<open>children[i]\<close> when \<^verbatim>\<open>i > 0 || !n->symbol.empty()\<close>, so the first
  child is skipped when the symbol is empty (\<open>skip\<close>).
\<close>

fun assign_children :: "node list \<Rightarrow> globals \<Rightarrow> globals" where
  "assign_children [] st = st"
| "assign_children (c # cs) st =
     assign_children cs (if is_var c then set_new_name_sorted (symbol c) st else st)"

fun assign_num :: "node \<Rightarrow> globals \<Rightarrow> globals"
  and assign_nums :: "bool \<Rightarrow> node list \<Rightarrow> globals \<Rightarrow> globals" where
  "assign_num (Node s nm np cs) st = assign_nums (s = []) cs (assign_children cs st)"
| "assign_nums skip [] st = st"
| "assign_nums skip (c # cs) st = assign_nums False cs (if skip then st else assign_num c st)"

text \<open>
  \<^verbatim>\<open>find_var\<close>: the first loop returns the identifier of the first child that passes the
  test.  The second loop returns from its first round with \<^verbatim>\<open>i > 0 || !n->symbol.empty()\<close>:
  the result for \<^verbatim>\<open>children[0]\<close> when the symbol is not empty, for \<^verbatim>\<open>children[1]\<close> when
  it is; 0 when there is no such child.
\<close>

fun find_var :: "node \<Rightarrow> globals \<Rightarrow> 64 word \<times> globals" where
  "find_var (Node s nm np cs) st =
     (case find is_var cs of
        Some c \<Rightarrow> get_name_id_sorted (symbol c) st
      | None \<Rightarrow>
          (case cs of
             [] \<Rightarrow> (0, st)
           | c0 # cs' \<Rightarrow>
               if s \<noteq> [] then find_var c0 st
               else (case cs' of [] \<Rightarrow> (0, st) | c1 # cs'' \<Rightarrow> find_var c1 st)))"

text \<open>
  \<^verbatim>\<open>sort_declarations\<close>, called on \<^verbatim>\<open>commands\<close> (the code reads \<^verbatim>\<open>*v\<close> and writes
  \<^verbatim>\<open>commands\<close>; its caller passes \<^verbatim>\<open>&commands\<close>).  \<open>tag_commands\<close> is the loop that fills
  \<^verbatim>\<open>combined_data\<close>.  \<^verbatim>\<open>std::sort\<close> orders the pairs by \<^verbatim>\<open>operator<\<close> of \<^verbatim>\<open>std::pair\<close>: by
  the tag, and for equal tags by the pointer.  Two pairs that compare equal are the
  same pair, so every sorting routine gives the same result; the model computes it with
  \<open>sort_key\<close>.
\<close>

fun tag_commands :: "cmd list \<Rightarrow> globals \<Rightarrow> (64 word \<times> cmd) list \<times> globals" where
  "tag_commands [] st = ([], st)"
| "tag_commands (c # cs) st =
     (case find_var (snd c) st of
        (t, st1) \<Rightarrow> (case tag_commands cs st1 of (ps, st2) \<Rightarrow> ((t, c) # ps, st2)))"

definition sort_declarations :: "nat \<Rightarrow> nat \<Rightarrow> globals \<Rightarrow> error + globals" where
  "sort_declarations start end' st =
     (if start = end' then Inr st
      else if start < end' \<and> end' \<le> length (commands st)
      then (case tag_commands (take (end' - start) (drop start (commands st))) st of
              (combined_data, st') \<Rightarrow>
                Inr (st'\<lparr>commands :=
                       take start (commands st') @
                       map snd (sort_key (\<lambda>(t, c). (t, fst c)) combined_data) @
                       drop end' (commands st')\<rparr>))
      else Inl Undefined_behaviour)"

section \<open>Printing\<close>

text \<open>Writing to the output stream; \<^verbatim>\<open>std::endl\<close> writes a line feed.\<close>

definition put :: "string \<Rightarrow> globals \<Rightarrow> globals" where
  "put s st = st\<lparr>cout := cout st @ s\<rparr>"

definition endl :: string where
  "endl = [CHR 0x0A]"

text \<open>A \<^verbatim>\<open>uint64_t\<close> written in decimal, as \<^verbatim>\<open>operator<<\<close> does.\<close>

function decimal :: "nat \<Rightarrow> string" where
  "decimal n =
     (if n < 10 then [''0123456789'' ! n]
      else decimal (n div 10) @ [''0123456789'' ! (n mod 10)])"
  by pat_completeness auto
termination
  by (relation "measure (\<lambda>n. n)") auto

declare decimal.simps [simp del]

definition make_name :: "64 word \<Rightarrow> string" where
  "make_name name_id = ''x'' @ decimal (unat name_id)"

definition make_annotation_name :: "globals \<Rightarrow> string \<times> globals" where
  "make_annotation_name st =
     (''smtcomp'' @ decimal (unat (annotation_n st)), st\<lparr>annotation_n := annotation_n st + 1\<rparr>)"

definition keep_annotation :: "node \<Rightarrow> annotation_mode \<Rightarrow> bool" where
  "keep_annotation n keep_annotations =
     (case keep_annotations of
        none \<Rightarrow> False
      | all \<Rightarrow> True
      | pattern \<Rightarrow> length (children n) = 2 \<and> symbol (children n ! 1) = '':pattern'')"

text \<open>
  \<^verbatim>\<open>print_node_sorted\<close>, in three parts.  \<open>print_open\<close> is what the function writes
  before the loop over the children: the opening parenthesis, the symbol or the uniform
  name, and the start of the annotation that \<^verbatim>\<open>gen_ucore\<close> adds to an assertion; it
  gives back the name of that annotation (empty when there is none).
  \<open>print_close\<close> is what it writes after the loop.  \<open>print_children_sorted\<close> is the
  loop; its flag says that no space goes before the next child (the first child of a
  node with an empty symbol).  An annotation node that is not kept and has no child
  makes the code read \<^verbatim>\<open>children[0]\<close> of an empty vector.
\<close>

definition print_open :: "node \<Rightarrow> globals \<Rightarrow> string \<times> globals" where
  "print_open n st =
     (let st1 = (if needs_parens n then put ''('' st else st);
          st2 = (if symbol n \<noteq> []
                 then (if no_scramble st1 \<or> \<not> is_name n then put (symbol n) st1
                       else (case get_name_id_sorted (symbol n) st1 of
                               (name_id, st') \<Rightarrow>
                                 if name_id = 0 then put (symbol n) st'
                                 else put (make_name name_id) st'))
                 else st1);
          (name, st3) = (if gen_ucore st2 \<and> symbol n = ''assert''
                         then make_annotation_name st2 else ([], st2))
      in (name, if name \<noteq> [] then put '' (!'' st3 else st3))"

definition print_close :: "node \<Rightarrow> string \<Rightarrow> globals \<Rightarrow> globals" where
  "print_close n name st =
     (let st1 = (if name \<noteq> [] then put ('' :named '' @ name @ '')'') st else st);
          st2 = (if needs_parens n then put '')'' st1 else st1)
      in if symbol n = ''check-sat''
         then (let st3 = (if gen_ucore st2 then put (endl @ ''(get-unsat-core)'') st2 else st2);
                   st4 = (if gen_mval st3 then put (endl @ ''(get-model)'') st3 else st3)
               in if gen_proof st4 then put (endl @ ''(get-proof)'') st4 else st4)
         else st2)"

fun print_node_sorted :: "annotation_mode \<Rightarrow> node \<Rightarrow> globals \<Rightarrow> error + globals"
  and print_children_sorted :: "annotation_mode \<Rightarrow> bool \<Rightarrow> node list \<Rightarrow> globals \<Rightarrow> error + globals"
  where
  "print_node_sorted ka (Node s nm np cs) st =
     (if s = ''!'' \<and> \<not> keep_annotation (Node s nm np cs) ka
      then (case cs of
              [] \<Rightarrow> Inl Undefined_behaviour
            | c # cs' \<Rightarrow> print_node_sorted ka c st)
      else (case print_open (Node s nm np cs) st of
              (name, st1) \<Rightarrow>
                (case print_children_sorted ka (s = []) cs st1 of
                   Inl e \<Rightarrow> Inl e
                 | Inr st2 \<Rightarrow> Inr (print_close (Node s nm np cs) name st2))))"
| "print_children_sorted ka nospace [] st = Inr st"
| "print_children_sorted ka nospace (c # cs) st =
     (case print_node_sorted ka c (if nospace then st else put '' '' st) of
        Inl e \<Rightarrow> Inl e
      | Inr st' \<Rightarrow> print_children_sorted ka False cs st')"

definition print_command_sorted :: "annotation_mode \<Rightarrow> node \<Rightarrow> globals \<Rightarrow> error + globals" where
  "print_command_sorted ka n st =
     (case print_node_sorted ka n st of Inl e \<Rightarrow> Inl e | Inr st' \<Rightarrow> Inr (put endl st'))"

section \<open>The print pass by ranks\<close>

text \<open>
  \<^verbatim>\<open>get_ranks(size)\<close>: the first \<^verbatim>\<open>size\<close> values of the file, or \<^verbatim>\<open>size\<close> zeros when the
  file cannot be opened or has fewer values.  The messages it writes to \<^verbatim>\<open>std::cerr\<close>
  are not part of the model.
\<close>

definition get_ranks :: "nat \<Rightarrow> globals \<Rightarrow> real list" where
  "get_ranks size' st =
     (case ranks_file st of
        None \<Rightarrow> replicate size' 0
      | Some xs \<Rightarrow> if size' \<le> length xs then take size' xs else replicate size' 0)"

text \<open>\<^verbatim>\<open>s.find(pat) != std::string::npos\<close>: the text \<open>pat\<close> occurs in \<open>s\<close>.\<close>

fun has_substring :: "string \<Rightarrow> string \<Rightarrow> bool" where
  "has_substring [] pat = (pat = [])"
| "has_substring (ch # s) pat = (take (length pat) (ch # s) = pat \<or> has_substring s pat)"

definition is_assert :: "cmd \<Rightarrow> bool" where
  "is_assert cm \<longleftrightarrow> symbol (snd cm) = ''assert''"

definition is_decl :: "cmd \<Rightarrow> bool" where
  "is_decl cm \<longleftrightarrow>
     has_substring (symbol (snd cm)) ''declare'' \<or> has_substring (symbol (snd cm)) ''define''"

text \<open>The inner loops \<^verbatim>\<open>while (j < commands.size() && ...) { ++j; }\<close>.\<close>

function scan_while :: "(cmd \<Rightarrow> bool) \<Rightarrow> cmd list \<Rightarrow> nat \<Rightarrow> nat" where
  "scan_while P cmds j = (if j < length cmds \<and> P (cmds ! j) then scan_while P cmds (j + 1) else j)"
  by pat_completeness auto
termination
  by (relation "measure (\<lambda>(P, cmds, j). length cmds - j)") auto

declare scan_while.simps [simp del]

lemma scan_while_ge: "j \<le> scan_while P cmds j"
proof (induction P cmds j rule: scan_while.induct)
  case (1 P cmds j)
  show ?case
  proof (cases "j < length cmds \<and> P (cmds ! j)")
    case True
    then have "scan_while P cmds j = scan_while P cmds (j + 1)"
      by (subst scan_while.simps) simp
    with "1.IH" [OF True] show ?thesis by simp
  next
    case False
    then have "scan_while P cmds j = j" by (subst scan_while.simps) auto
    then show ?thesis by simp
  qed
qed

lemma shuffle_list_ranks_length:
  assumes "shuffle_list_ranks std_sort v start end' ranks = Inr v'"
  shows "length v' = length v"
proof -
  let ?n = "size_t_sub end' start"
  let ?temp = "map (\<lambda>i. v ! (start + std_sort (\<lambda>i j. ranks ! i < ranks ! j) [0..<?n] ! i)) [0..<?n]"
  from assms have g: "?n = 0 \<or> start + ?n \<le> length v"
    and v': "v' = take start v @ ?temp @ drop (start + ?n) v"
    unfolding shuffle_list_ranks_def Let_def by (simp_all split: if_splits)
  from g show ?thesis
  proof
    assume "?n = 0"
    then show ?thesis using v' by simp
  next
    assume "start + ?n \<le> length v"
    then show ?thesis using v' by simp
  qed
qed

text \<open>The passes leave the length of \<^verbatim>\<open>commands\<close> as it is, which bounds the outer loops.\<close>

lemma get_name_id_sorted_commands:
  "get_name_id_sorted n st = (t, st') \<Longrightarrow> commands st' = commands st"
  by (auto simp: get_name_id_sorted_def Let_def split: option.splits)

lemma find_var_commands: "find_var n st = (t, st') \<Longrightarrow> commands st' = commands st"
  by (induction n st rule: find_var.induct)
    (auto split: option.splits list.splits if_splits dest: get_name_id_sorted_commands)

lemma tag_commands_commands:
  "tag_commands cs st = (ps, st') \<Longrightarrow> commands st' = commands st \<and> length ps = length cs"
proof (induction cs arbitrary: st ps st')
  case Nil
  then show ?case by simp
next
  case (Cons c cs)
  obtain t st1 where f: "find_var (snd c) st = (t, st1)" by (cases "find_var (snd c) st")
  obtain ps1 st2 where g: "tag_commands cs st1 = (ps1, st2)" by (cases "tag_commands cs st1")
  from Cons.prems f g have e: "ps = (t, c) # ps1" "st' = st2" by simp_all
  from Cons.IH [OF g] find_var_commands [OF f] e show ?case by simp
qed

lemma sort_declarations_length:
  assumes "sort_declarations start end' st = Inr st'"
  shows "length (commands st') = length (commands st)"
proof (cases "start = end'")
  case True
  then show ?thesis using assms by (simp add: sort_declarations_def)
next
  case False
  let ?w = "take (end' - start) (drop start (commands st))"
  from assms False have b: "start < end'" "end' \<le> length (commands st)"
    by (auto simp: sort_declarations_def split: if_splits)
  obtain ps st1 where t: "tag_commands ?w st = (ps, st1)" by (cases "tag_commands ?w st")
  from tag_commands_commands [OF t] have c: "commands st1 = commands st" "length ps = length ?w"
    by simp_all
  from assms False b t have
    "st' = st1\<lparr>commands := take start (commands st1) @
          map snd (sort_key (\<lambda>(t, c). (t, fst c)) ps) @ drop end' (commands st1)\<rparr>"
    by (simp add: sort_declarations_def)
  then have "length (commands st') = start + length ?w + (length (commands st) - end')"
    using b c by simp
  then show ?thesis using b by simp
qed

text \<open>
  The first loop of \<^verbatim>\<open>print_ranked\<close>.  \<^verbatim>\<open>already\<close> is declared in the body of the loop,
  so every round starts with \<^verbatim>\<open>already = false\<close>.
\<close>

function rank_loop ::
  "((nat \<Rightarrow> nat \<Rightarrow> bool) \<Rightarrow> nat list \<Rightarrow> nat list) \<Rightarrow> nat \<Rightarrow> globals \<Rightarrow> error + globals" where
  "rank_loop std_sort i st =
     (if i < length (commands st)
      then (let already = False in
            if symbol (snd (commands st ! i)) = ''assert'' \<and> \<not> already
            then (let j = scan_while is_assert (commands st) (i + 1);
                      ranks = get_ranks (j - i) st
                  in if j - i > 1
                     then (case shuffle_list_ranks std_sort (commands st) i j ranks of
                             Inl e \<Rightarrow> Inl e
                           | Inr cmds' \<Rightarrow> rank_loop std_sort j (st\<lparr>commands := cmds'\<rparr>))
                     else rank_loop std_sort j st)
            else if symbol (snd (commands st ! i)) = ''assert'' \<and> already
            then Inl (Invalid_argument ''assertions in multiple chunks'')
            else rank_loop std_sort (i + 1) st)
      else Inr st)"
  by pat_completeness auto
termination
proof (relation "measure (\<lambda>(std_sort, i, st). length (commands st) - i)")
  show "wf (measure (\<lambda>(std_sort, i, st). length (commands st) - i))" by simp
next
  fix std_sort :: "(nat \<Rightarrow> nat \<Rightarrow> bool) \<Rightarrow> nat list \<Rightarrow> nat list"
    and i st already j ranks and cmds' :: "cmd list"
  assume a: "i < length (commands st)" "j = scan_while is_assert (commands st) (i + 1)"
    "shuffle_list_ranks std_sort (commands st) i j ranks = Inr cmds'"
  have "i < j" using scan_while_ge [of "i + 1" is_assert "commands st"] a(2) by simp
  moreover have "length cmds' = length (commands st)"
    using a(3) by (rule shuffle_list_ranks_length)
  ultimately show "((std_sort, j, st\<lparr>commands := cmds'\<rparr>), std_sort, i, st)
      \<in> measure (\<lambda>(std_sort, i, st). length (commands st) - i)"
    using a(1) by simp
next
  fix std_sort :: "(nat \<Rightarrow> nat \<Rightarrow> bool) \<Rightarrow> nat list \<Rightarrow> nat list"
    and i st already j ranks
  assume a: "i < length (commands st)" "j = scan_while is_assert (commands st) (i + 1)"
  have "i < j" using scan_while_ge [of "i + 1" is_assert "commands st"] a(2) by simp
  then show "((std_sort, j, st), std_sort, i, st)
      \<in> measure (\<lambda>(std_sort, i, st). length (commands st) - i)"
    using a(1) by simp
next
  fix std_sort :: "(nat \<Rightarrow> nat \<Rightarrow> bool) \<Rightarrow> nat list \<Rightarrow> nat list"
    and i st already
  assume "i < length (commands st)"
  then show "((std_sort, i + 1, st), std_sort, i, st)
      \<in> measure (\<lambda>(std_sort, i, st). length (commands st) - i)"
    by simp
qed

declare rank_loop.simps [simp del]

text \<open>The second loop: \<^verbatim>\<open>assign_num\<close> on every assertion, in the order of the buffer.\<close>

fun assign_loop :: "cmd list \<Rightarrow> globals \<Rightarrow> globals" where
  "assign_loop [] st = st"
| "assign_loop (cm # cmds) st =
     assign_loop cmds (if symbol (snd cm) = ''assert'' then assign_num (snd cm) st else st)"

text \<open>The third loop, with its own \<^verbatim>\<open>already\<close>.\<close>

function decl_loop :: "nat \<Rightarrow> globals \<Rightarrow> error + globals" where
  "decl_loop i st =
     (if i < length (commands st)
      then (let already = False in
            if is_decl (commands st ! i) \<and> \<not> already
            then (let j = scan_while is_decl (commands st) (i + 1)
                  in if j - i > 1
                     then (case sort_declarations i j st of
                             Inl e \<Rightarrow> Inl e
                           | Inr st' \<Rightarrow> decl_loop j st')
                     else decl_loop j st)
            else if is_decl (commands st ! i) \<and> already
            then Inl (Invalid_argument ''declarations and definitions in multiple chunks'')
            else decl_loop (i + 1) st)
      else Inr st)"
  by pat_completeness auto
termination
proof (relation "measure (\<lambda>(i, st). length (commands st) - i)")
  show "wf (measure (\<lambda>(i, st). length (commands st) - i))" by simp
next
  fix i st already j st'
  assume a: "i < length (commands st)" "j = scan_while is_decl (commands st) (i + 1)"
    "sort_declarations i j st = Inr st'"
  have "i < j" using scan_while_ge [of "i + 1" is_decl "commands st"] a(2) by simp
  moreover have "length (commands st') = length (commands st)"
    using a(3) by (rule sort_declarations_length)
  ultimately show "((j, st'), i, st) \<in> measure (\<lambda>(i, st). length (commands st) - i)"
    using a(1) by simp
next
  fix i st already j
  assume a: "i < length (commands st)" "j = scan_while is_decl (commands st) (i + 1)"
  have "i < j" using scan_while_ge [of "i + 1" is_decl "commands st"] a(2) by simp
  then show "((j, st), i, st) \<in> measure (\<lambda>(i, st). length (commands st) - i)"
    using a(1) by simp
next
  fix i st already
  assume "i < length (commands st)"
  then show "((i + 1, st), i, st) \<in> measure (\<lambda>(i, st). length (commands st) - i)"
    by simp
qed

declare decl_loop.simps [simp del]

text \<open>
  The last loop prints every command (\<^verbatim>\<open>del_node\<close> frees the tree, which the model
  does not track); then \<^verbatim>\<open>commands.clear()\<close>.
\<close>

fun print_all :: "annotation_mode \<Rightarrow> cmd list \<Rightarrow> globals \<Rightarrow> error + globals" where
  "print_all ka [] st = Inr st"
| "print_all ka (cm # cmds) st =
     (case print_command_sorted ka (snd cm) st of
        Inl e \<Rightarrow> Inl e
      | Inr st' \<Rightarrow> print_all ka cmds st')"

definition print_ranked ::
  "((nat \<Rightarrow> nat \<Rightarrow> bool) \<Rightarrow> nat list \<Rightarrow> nat list) \<Rightarrow> annotation_mode \<Rightarrow> globals
     \<Rightarrow> error + globals" where
  "print_ranked std_sort keep_annotations st =
     (case rank_loop std_sort 0 st of
        Inl e \<Rightarrow> Inl e
      | Inr st1 \<Rightarrow>
          (case decl_loop 0 (assign_loop (commands st1) st1) of
             Inl e \<Rightarrow> Inl e
           | Inr st2 \<Rightarrow>
               (case print_all keep_annotations (commands st2) st2 of
                  Inl e \<Rightarrow> Inl e
                | Inr st3 \<Rightarrow> Inr (st3\<lparr>commands := []\<rparr>))))"

section \<open>The tag of a declaration\<close>

text \<open>
  What a lookup in the second registry returns in a state, and the tag that
  \<^verbatim>\<open>find_var\<close> computes for a node in a state.
\<close>

definition lookup_sorted :: "globals \<Rightarrow> string \<Rightarrow> 64 word" where
  "lookup_sorted st n = (case name_ids_sorted st (unquote n) of None \<Rightarrow> 0 | Some v \<Rightarrow> v)"

definition find_var_tag :: "globals \<Rightarrow> node \<Rightarrow> 64 word" where
  "find_var_tag st n = fst (find_var n st)"

text \<open>
  The node at which the search of \<^verbatim>\<open>find_var\<close> stops, if it stops at one: the first child
  that refers to a declared name other than \<open>=\<close>; when no child does, the node found
  in the same way in the first child (in the second child, under an empty symbol).
  \<open>found_tag\<close> is the identifier of that node, or 0.
\<close>

fun found_name :: "node \<Rightarrow> node option" where
  "found_name (Node s nm np cs) =
     (case find is_var cs of
        Some c \<Rightarrow> Some c
      | None \<Rightarrow>
          (case cs of
             [] \<Rightarrow> None
           | c0 # cs' \<Rightarrow>
               if s \<noteq> [] then found_name c0
               else (case cs' of [] \<Rightarrow> None | c1 # cs'' \<Rightarrow> found_name c1)))"

definition found_tag :: "globals \<Rightarrow> node \<Rightarrow> 64 word" where
  "found_tag st n = (case found_name n of None \<Rightarrow> 0 | Some d \<Rightarrow> lookup_sorted st (symbol d))"

text \<open>The descendants of a node in depth-first order: every child, followed by its own.\<close>

fun descendants :: "node \<Rightarrow> node list"
  and descendants_list :: "node list \<Rightarrow> node list" where
  "descendants (Node s nm np cs) = descendants_list cs"
| "descendants_list [] = []"
| "descendants_list (c # cs) = c # descendants c @ descendants_list cs"

text \<open>
  The declaration sort as the specification words it.  \<open>first_name\<close> is the first
  descendant, in depth-first order, that refers to a declared name other than \<open>=\<close>;
  \<open>spec_tag\<close> is its identifier, or 0 when there is none; \<open>sort_declarations_spec\<close>
  sorts the run by that tag and keeps the input order of commands with equal tags
  (\<open>sort_key\<close> is stable).
\<close>

fun first_name :: "node \<Rightarrow> node option"
  and first_name_list :: "node list \<Rightarrow> node option" where
  "first_name (Node s nm np cs) = first_name_list cs"
| "first_name_list [] = None"
| "first_name_list (c # cs) =
     (if is_var c then Some c
      else (case first_name c of Some d \<Rightarrow> Some d | None \<Rightarrow> first_name_list cs))"

definition spec_tag :: "globals \<Rightarrow> node \<Rightarrow> 64 word" where
  "spec_tag st n = (case first_name n of None \<Rightarrow> 0 | Some d \<Rightarrow> lookup_sorted st (symbol d))"

definition sort_declarations_spec :: "nat \<Rightarrow> nat \<Rightarrow> globals \<Rightarrow> cmd list" where
  "sort_declarations_spec start end' st =
     take start (commands st) @
     sort_key (\<lambda>cm. spec_tag st (snd cm)) (take (end' - start) (drop start (commands st))) @
     drop end' (commands st)"

section \<open>Two runs on the same input\<close>

text \<open>
  A second run of the program on the same input builds the same command trees, in the
  same order, but the allocator may place their nodes at other addresses, and the
  generator starts from another clock value.  \<open>relocate\<close> is the state of such a run:
  the same buffer with every command node moved to another address.  \<open>keeps_order\<close>
  says that the nodes of the declarations and definitions lie in the same order in memory
  in both runs.
\<close>

definition move :: "(nat \<Rightarrow> nat) \<Rightarrow> cmd \<Rightarrow> cmd" where
  "move \<phi> cm = (\<phi> (fst cm), snd cm)"

definition relocate :: "(nat \<Rightarrow> nat) \<Rightarrow> globals \<Rightarrow> globals" where
  "relocate \<phi> st = st\<lparr>commands := map (move \<phi>) (commands st)\<rparr>"



text \<open>The output of \<open>t\<close> is the output of \<open>st\<close> with more text after it.\<close>

definition appends :: "globals \<Rightarrow> globals \<Rightarrow> bool" where
  "appends st t \<longleftrightarrow> (\<exists>out. cout t = cout st @ out)"

section \<open>The generator\<close>

text \<open>
  C2.  The claim reads the state update as \<open>(state * 25214903917 + 11) mod 2 ^ 48\<close>.
  The mask of the code is \<open>~(2 << 48)\<close>, which clears bit 49 only.  After
  \<^verbatim>\<open>set_seed(12345)\<close> one call \<^verbatim>\<open>next_rand_int(1000)\<close> leaves the state
  \<open>311277988855376\<close>, which is not below \<open>2 ^ 48\<close>, and returns \<open>171\<close>; the update
  modulo \<open>2 ^ 48\<close> gives the state \<open>29803012144720\<close> and the result \<open>875\<close>.
\<close>

theorem next_rand_int_not_mod_2_48:
  "seed (set_seed 12345 initial_globals) = 12345 \<and>
   next_rand_int 1000 (set_seed 12345 initial_globals)
     = Inr (171, initial_globals\<lparr>seed := 311277988855376\<rparr>) \<and>
   (12345 * 25214903917 + 11) mod 2 ^ 48 = (29803012144720 :: nat) \<and>
   (29803012144720 div 2 ^ 16) mod 1000 = (875 :: nat)"
  by (simp add: set_seed_def next_rand_int_def a_c_def c_c_def mask_c_def initial_globals_def)

section \<open>The symbol registries\<close>

lemma first_declared_snoc:
  "first_declared (ns @ [n]) =
     (if unquote n \<in> set (first_declared ns) then first_declared ns
      else first_declared ns @ [unquote n])"
  by (simp add: first_declared_def)

lemma declare_all_snoc: "declare_all (ns @ [n]) st = set_new_name n (declare_all ns st)"
  by (induction ns arbitrary: st) simp_all

lemma reg_inv_declare_all: "reg_inv (first_declared ns) (declare_all ns initial_globals)"
proof (induction ns rule: rev_induct)
  case Nil
  show ?case by (simp add: reg_inv_def first_declared_def initial_globals_def)
next
  case (snoc n ns)
  let ?D = "first_declared ns" and ?st = "declare_all ns initial_globals"
  from snoc have inv: "dom (name_ids ?st) = set ?D"
    "\<And>i. i < length ?D \<Longrightarrow> name_ids ?st (?D ! i) = Some (word_of_nat (Suc i))"
    "next_name_id ?st = word_of_nat (Suc (length ?D))"
    by (simp_all add: reg_inv_def)
  show ?case
  proof (cases "unquote n \<in> set ?D")
    case True
    then have "name_ids ?st (unquote n) \<noteq> None" using inv(1) by blast
    then have "set_new_name n ?st = ?st" by (auto simp: set_new_name_def)
    with True snoc show ?thesis by (simp add: first_declared_snoc declare_all_snoc)
  next
    case False
    then have none: "name_ids ?st (unquote n) = None" using inv(1) by blast
    have neq: "\<And>i. i < length ?D \<Longrightarrow> ?D ! i \<noteq> unquote n"
      using False nth_mem by metis
    show ?thesis
      using False none inv neq
      by (auto simp: first_declared_snoc declare_all_snoc reg_inv_def set_new_name_def Let_def
          nth_append less_Suc_eq)
  qed
qed

lemma first_declared_props:
  "distinct (first_declared ns)" "set (first_declared ns) = unquote ` set ns"
  by (simp_all add: first_declared_def)

lemma run_op_keeps_name_id:
  "name_ids st k = Some v \<Longrightarrow> name_ids (run_op x st) k = Some v"
  by (cases x)
    (auto simp: set_new_name_def get_name_id_def set_new_name_sorted_def
      get_name_id_sorted_def Let_def split: option.splits)

lemma run_op_keeps_name_id_sorted:
  "name_ids_sorted st k = Some v \<Longrightarrow> name_ids_sorted (run_op x st) k = Some v"
  by (cases x)
    (auto simp: set_new_name_def get_name_id_def set_new_name_sorted_def
      get_name_id_sorted_def Let_def split: option.splits)

lemma run_ops_keeps_name_id:
  "name_ids st k = Some v \<Longrightarrow> name_ids (run_ops xs st) k = Some v"
  by (induction xs arbitrary: st) (simp_all add: run_op_keeps_name_id)

lemma run_ops_keeps_name_id_sorted:
  "name_ids_sorted st k = Some v \<Longrightarrow> name_ids_sorted (run_ops xs st) k = Some v"
  by (induction xs arbitrary: st) (simp_all add: run_op_keeps_name_id_sorted)

lemma set_new_name_idem: "set_new_name n (set_new_name n st) = set_new_name n st"
  by (simp add: set_new_name_def Let_def)

lemma unat_word_of_nat_64: "n < 2 ^ 64 \<Longrightarrow> unat (word_of_nat n :: 64 word) = n"
  by (simp add: unat_of_nat)

text \<open>
  C8.  After any sequence of declarations from the initial state, the registered
  symbols are the distinct unquoted texts; the one declared first has identifier 1, the
  next new one 2, and so on (as long as fewer than \<open>2 ^ 64 - 1\<close> symbols are
  declared); a lookup applies the same unquoting and returns that identifier, or 0 for
  an unregistered symbol; declaring twice is declaring once; no operation changes or
  removes an assignment.
\<close>

theorem registry_declare_sequence:
  assumes "Suc (length (first_declared ns)) < 2 ^ 64"
  shows "distinct (first_declared ns) \<and> set (first_declared ns) = unquote ` set ns \<and>
    dom (name_ids (declare_all ns initial_globals)) = set (first_declared ns) \<and>
    next_name_id (declare_all ns initial_globals) = word_of_nat (Suc (length (first_declared ns))) \<and>
    (\<forall>i<length (first_declared ns).
       name_ids (declare_all ns initial_globals) (first_declared ns ! i) = Some (word_of_nat (Suc i)) \<and>
       unat (word_of_nat (Suc i) :: 64 word) = Suc i \<and>
       (\<forall>n. unquote n = first_declared ns ! i \<longrightarrow>
          fst (get_name_id n (declare_all ns initial_globals)) = word_of_nat (Suc i))) \<and>
    (\<forall>n. unquote n \<notin> set (first_declared ns) \<longrightarrow>
       fst (get_name_id n (declare_all ns initial_globals)) = 0) \<and>
    (\<forall>st n. set_new_name n (set_new_name n st) = set_new_name n st) \<and>
    (\<forall>st x k v. name_ids st k = Some v \<longrightarrow> name_ids (run_op x st) k = Some v)"
proof -
  let ?D = "first_declared ns" and ?st = "declare_all ns initial_globals"
  have inv: "dom (name_ids ?st) = set ?D"
    "\<And>i. i < length ?D \<Longrightarrow> name_ids ?st (?D ! i) = Some (word_of_nat (Suc i))"
    "next_name_id ?st = word_of_nat (Suc (length ?D))"
    using reg_inv_declare_all [of ns] by (simp_all add: reg_inv_def)
  have ids: "\<And>i. i < length ?D \<Longrightarrow> unat (word_of_nat (Suc i) :: 64 word) = Suc i"
    using assms by (intro unat_word_of_nat_64) simp
  have look: "\<And>i n. i < length ?D \<Longrightarrow> unquote n = ?D ! i \<Longrightarrow>
      fst (get_name_id n ?st) = word_of_nat (Suc i)"
    using inv(2) by (simp add: get_name_id_def Let_def)
  have absent: "\<And>n. unquote n \<notin> set ?D \<Longrightarrow> fst (get_name_id n ?st) = 0"
  proof -
    fix n assume "unquote n \<notin> set ?D"
    then have "name_ids ?st (unquote n) = None" using inv(1) by blast
    then show "fst (get_name_id n ?st) = 0" by (simp add: get_name_id_def Let_def)
  qed
  show ?thesis
    using first_declared_props [of ns] inv ids look absent set_new_name_idem run_op_keeps_name_id
    by (intro conjI allI impI) simp_all
qed

text \<open>The declarations \<open>a\<close>, \<open>|b|\<close>, \<open>a\<close>, \<open>b\<close>, \<open>c\<close> register \<open>a\<close>, \<open>b\<close>, \<open>c\<close>
  as 1, 2, 3.\<close>

theorem registry_declare_sequence_witness:
  "Suc (length (first_declared [''a'', ''|b|'', ''a'', ''b'', ''c''])) < 2 ^ 64 \<and>
   first_declared [''a'', ''|b|'', ''a'', ''b'', ''c''] = [''a'', ''b'', ''c''] \<and>
   name_ids (declare_all [''a'', ''|b|'', ''a'', ''b'', ''c''] initial_globals) ''b'' = Some 2 \<and>
   fst (get_name_id ''|c|'' (declare_all [''a'', ''|b|'', ''a'', ''b'', ''c''] initial_globals)) = 3 \<and>
   fst (get_name_id ''d'' (declare_all [''a'', ''|b|'', ''a'', ''b'', ''c''] initial_globals)) = 0"
proof -
  let ?ns = "[''a'', ''|b|'', ''a'', ''b'', ''c'']"
  have D: "first_declared ?ns = [''a'', ''b'', ''c'']"
    by (simp add: first_declared_def unquote_def)
  have h: "Suc (length (first_declared ?ns)) < 2 ^ 64" by (simp add: D)
  note T = registry_declare_sequence [OF h, unfolded D]
  from T have all: "\<forall>i<length [''a'', ''b'', ''c''].
       name_ids (declare_all ?ns initial_globals) ([''a'', ''b'', ''c''] ! i) = Some (word_of_nat (Suc i)) \<and>
       unat (word_of_nat (Suc i) :: 64 word) = Suc i \<and>
       (\<forall>n. unquote n = [''a'', ''b'', ''c''] ! i \<longrightarrow>
          fst (get_name_id n (declare_all ?ns initial_globals)) = word_of_nat (Suc i))"
    by (elim conjE)
  have b: "name_ids (declare_all ?ns initial_globals) ''b'' = Some 2"
    using all [rule_format, of 1] by simp
  have c: "\<forall>n. unquote n = ''c'' \<longrightarrow>
          fst (get_name_id n (declare_all ?ns initial_globals)) = 3"
    using all [rule_format, of 2] by simp
  from T have d: "\<forall>n. unquote n \<notin> set [''a'', ''b'', ''c''] \<longrightarrow>
       fst (get_name_id n (declare_all ?ns initial_globals)) = 0"
    by (elim conjE)
  have uc: "unquote ''|c|'' = ''c''" "unquote ''d'' = ''d''" by (simp_all add: unquote_def)
  show ?thesis using h D b c [rule_format, of "''|c|''"] d [rule_format, of "''d''"] uc by simp
qed

text \<open>
  C10.  A lookup of a symbol that is not in the map returns 0 and inserts the symbol
  with the value 0.  From then on declaring the symbol changes nothing, and after any
  further declarations and lookups the lookup of the symbol still returns 0.  The same
  holds for the second registry.
\<close>

theorem lookup_before_declare:
  "(name_ids st (unquote s) = None \<longrightarrow>
      fst (get_name_id s st) = 0 \<and>
      name_ids (snd (get_name_id s st)) (unquote s) = Some 0 \<and>
      set_new_name s (snd (get_name_id s st)) = snd (get_name_id s st) \<and>
      (\<forall>ops. fst (get_name_id s (run_ops ops (snd (get_name_id s st)))) = 0)) \<and>
   (name_ids_sorted st (unquote s) = None \<longrightarrow>
      fst (get_name_id_sorted s st) = 0 \<and>
      name_ids_sorted (snd (get_name_id_sorted s st)) (unquote s) = Some 0 \<and>
      set_new_name_sorted s (snd (get_name_id_sorted s st)) = snd (get_name_id_sorted s st) \<and>
      (\<forall>ops. fst (get_name_id_sorted s (run_ops ops (snd (get_name_id_sorted s st)))) = 0))"
proof (intro conjI impI allI)
  assume n: "name_ids st (unquote s) = None"
  let ?st1 = "snd (get_name_id s st)"
  show "fst (get_name_id s st) = 0" using n by (simp add: get_name_id_def Let_def)
  show z: "name_ids ?st1 (unquote s) = Some 0" using n by (simp add: get_name_id_def Let_def)
  show "set_new_name s ?st1 = ?st1" using z by (simp add: set_new_name_def Let_def)
  fix ops
  have "name_ids (run_ops ops ?st1) (unquote s) = Some 0"
    using z by (rule run_ops_keeps_name_id)
  then show "fst (get_name_id s (run_ops ops ?st1)) = 0" by (simp add: get_name_id_def Let_def)
next
  assume n: "name_ids_sorted st (unquote s) = None"
  let ?st1 = "snd (get_name_id_sorted s st)"
  show "fst (get_name_id_sorted s st) = 0" using n by (simp add: get_name_id_sorted_def Let_def)
  show z: "name_ids_sorted ?st1 (unquote s) = Some 0"
    using n by (simp add: get_name_id_sorted_def Let_def)
  show "set_new_name_sorted s ?st1 = ?st1" using z by (simp add: set_new_name_sorted_def Let_def)
  fix ops
  have "name_ids_sorted (run_ops ops ?st1) (unquote s) = Some 0"
    using z by (rule run_ops_keeps_name_id_sorted)
  then show "fst (get_name_id_sorted s (run_ops ops ?st1)) = 0"
    by (simp add: get_name_id_sorted_def Let_def)
qed

text \<open>Looking \<open>x\<close> up, then declaring \<open>x\<close> and \<open>y\<close>: \<open>x\<close> stays 0 and \<open>y\<close> gets 1.\<close>

theorem lookup_before_declare_witness:
  "name_ids initial_globals (unquote ''x'') = None \<and>
   name_ids_sorted initial_globals (unquote ''x'') = None \<and>
   fst (get_name_id ''x'' initial_globals) = 0 \<and>
   fst (get_name_id ''x''
     (run_ops [Declare ''x'', Declare ''y''] (snd (get_name_id ''x'' initial_globals)))) = 0 \<and>
   fst (get_name_id ''y''
     (run_ops [Declare ''x'', Declare ''y''] (snd (get_name_id ''x'' initial_globals)))) = 1 \<and>
   fst (get_name_id_sorted ''x''
     (run_ops [Declare_sorted ''x''] (snd (get_name_id_sorted ''x'' initial_globals)))) = 0"
proof -
  have h: "name_ids initial_globals (unquote ''x'') = None"
    "name_ids_sorted initial_globals (unquote ''x'') = None"
    by (simp_all add: initial_globals_def)
  have y: "fst (get_name_id ''y''
     (run_ops [Declare ''x'', Declare ''y''] (snd (get_name_id ''x'' initial_globals)))) = 1"
    by (simp add: get_name_id_def set_new_name_def unquote_def initial_globals_def Let_def)
  note T = lookup_before_declare [of initial_globals "''x''"]
  from T h have z: "fst (get_name_id ''x'' initial_globals) = 0" by blast
  from T h have A: "\<forall>ops. fst (get_name_id ''x''
      (run_ops ops (snd (get_name_id ''x'' initial_globals)))) = 0" by blast
  from T h have B: "\<forall>ops. fst (get_name_id_sorted ''x''
      (run_ops ops (snd (get_name_id_sorted ''x'' initial_globals)))) = 0" by blast
  show ?thesis
    using h y z A [rule_format, of "[Declare ''x'', Declare ''y'']"]
      B [rule_format, of "[Declare_sorted ''x'']"]
    by blast
qed

section \<open>The shuffle of a window\<close>

lemma next_rand_int_Inr:
  "0 < b \<Longrightarrow> \<exists>r st'. next_rand_int b st = Inr (r, st') \<and> r < b \<and> no_scramble st' = no_scramble st"
  by (simp add: next_rand_int_def Let_def)

lemma swap_at_props:
  assumes "x < length v" "y < length v"
  shows "length (swap_at x y v) = length v" "mset (swap_at x y v) = mset v"
    "\<And>i. i \<noteq> x \<Longrightarrow> i \<noteq> y \<Longrightarrow> swap_at x y v ! i = v ! i"
  using assms mset_swap [of y v x] by (simp_all add: swap_at_def)

lemma window_split:
  assumes "s \<le> e" "e \<le> length v"
  shows "v = take s v @ take (e - s) (drop s v) @ drop e v"
proof -
  have "drop (e - s) (drop s v) = drop e v" using assms by simp
  then have "drop s v = take (e - s) (drop s v) @ drop e v"
    by (metis append_take_drop_id)
  then show ?thesis by (metis append_take_drop_id)
qed

lemma window_mset:
  assumes "s \<le> e" "e \<le> length v" "length v' = length v" "mset v' = mset v"
    "\<forall>i<length v. i < s \<or> e \<le> i \<longrightarrow> v' ! i = v ! i"
  shows "mset (take (e - s) (drop s v')) = mset (take (e - s) (drop s v))"
proof -
  have t: "take s v' = take s v"
    using assms by (intro nth_take_lemma) auto
  have d: "drop e v' = drop e v"
    using assms by (intro nth_equalityI) auto
  have "mset v' = mset (take s v' @ take (e - s) (drop s v') @ drop e v')"
    using window_split [of s e v'] assms(1,2,3) by simp
  moreover have "mset v = mset (take s v @ take (e - s) (drop s v) @ drop e v)"
    using window_split [of s e v] assms(1,2) by simp
  ultimately show ?thesis using t d assms(4) by simp
qed

lemma shuffle_loop_perm:
  "k + start < length v \<Longrightarrow> length v < 2 ^ 64 \<Longrightarrow>
   \<exists>v' st'. shuffle_loop k start v st = Inr (v', st') \<and> length v' = length v \<and>
     mset v' = mset v \<and> (\<forall>i<length v. i < start \<or> start + k < i \<longrightarrow> v' ! i = v ! i)"
proof (induction k arbitrary: v st)
  case 0
  show ?case by simp
next
  case (Suc k)
  have b: "size_t_add (Suc k) 1 = Suc (Suc k)"
    using Suc.prems by (subst size_t_add_small) linarith+
  obtain r st1 where r: "next_rand_int (size_t_add (Suc k) 1) st = Inr (r, st1)" "r < Suc (Suc k)"
    using next_rand_int_Inr [of "size_t_add (Suc k) 1" st] b by auto
  let ?x = "Suc k + start" and ?y = "r + start"
  have x: "size_t_add (Suc k) start = ?x"
    using Suc.prems by (subst size_t_add_small) linarith+
  have y: "size_t_add r start = ?y"
    using Suc.prems r(2) by (subst size_t_add_small) linarith+
  have xy: "?x < length v" "?y < length v"
    using Suc.prems r(2) by linarith+
  let ?w = "swap_at ?x ?y v"
  have w: "length ?w = length v" "mset ?w = mset v"
    "\<And>i. i \<noteq> ?x \<Longrightarrow> i \<noteq> ?y \<Longrightarrow> ?w ! i = v ! i"
    using swap_at_props [OF xy] by simp_all
  have "k + start < length ?w" "length ?w < 2 ^ 64"
    using Suc.prems w(1) by linarith+
  from Suc.IH [OF this, of st1] obtain v' st' where
    IH: "shuffle_loop k start ?w st1 = Inr (v', st')" "length v' = length ?w" "mset v' = mset ?w"
      "\<forall>i<length ?w. i < start \<or> start + k < i \<longrightarrow> v' ! i = ?w ! i"
    by blast
  have run: "shuffle_loop (Suc k) start v st = Inr (v', st')"
    using r(1) x y xy IH(1) by (simp add: Let_def)
  have out: "\<forall>i<length v. i < start \<or> start + Suc k < i \<longrightarrow> v' ! i = v ! i"
  proof (intro allI impI)
    fix i assume i: "i < length v" "i < start \<or> start + Suc k < i"
    then have "i \<noteq> ?x" "i \<noteq> ?y" using r(2) by linarith+
    then have "?w ! i = v ! i" by (rule w(3))
    moreover have "v' ! i = ?w ! i" using IH(4) i w(1) by auto
    ultimately show "v' ! i = v ! i" by simp
  qed
  show ?case using run IH(2,3) w(1,2) out by simp
qed

lemma shuffle_loop_step:
  assumes "0 < i" "i + start < length v" "length v < 2 ^ 64"
    "next_rand_int (i + 1) st = Inr (r, st')"
  shows "shuffle_loop i start v st = shuffle_loop (i - 1) start (swap_at (i + start) (r + start) v) st'"
proof -
  obtain k where k: "i = Suc k" using assms(1) by (cases i) simp_all
  have r: "r < i + 1" using assms(4) by (auto simp: next_rand_int_def Let_def split: if_splits)
  have b: "size_t_add i 1 = i + 1" using assms(2,3) by (subst size_t_add_small) linarith+
  have x: "size_t_add i start = i + start" using assms(2,3) by (subst size_t_add_small) linarith+
  have y: "size_t_add r start = r + start" using assms(2,3) r by (subst size_t_add_small) linarith+
  have "r + start < length v" using r assms(2) by linarith
  then show ?thesis using assms(2,4) b x y unfolding k by (simp add: Let_def)
qed



lemma swap_at_example: "swap_at 3 2 [10, 20, 30, 40, 50 :: nat] = [10, 20, 40, 30, 50]"
  "swap_at 2 2 [10, 20, 40, 30, 50 :: nat] = [10, 20, 40, 30, 50]"
  by (simp_all add: swap_at_def numeral_3_eq_3 numeral_2_eq_2)

lemma next_rand_int_example_1: "next_rand_int 3 (set_seed 42 initial_globals) = Inr (1, initial_globals\<lparr>seed := 1059025964525\<rparr>)"
  by (simp add: set_seed_def next_rand_int_def a_c_def c_c_def mask_c_def initial_globals_def)

lemma next_rand_int_example_2: "next_rand_int 2 (initial_globals\<lparr>seed := 1059025964525\<rparr>) = Inr (1, initial_globals\<lparr>seed := 10798703498450934772\<rparr>)"
  by (simp add: set_seed_def next_rand_int_def a_c_def c_c_def mask_c_def initial_globals_def)

lemma shuffle_list_example: "shuffle_list [10, 20, 30, 40, 50 :: nat] 1 4 (set_seed 42 initial_globals)
     = Inr ([10, 20, 40, 30, 50], initial_globals\<lparr>seed := 10798703498450934772\<rparr>)"
proof -
  have n: "size_t_sub (size_t_sub 4 1) 1 = 2"
    by (simp add: size_t_sub_small)
  have ns: "\<not> no_scramble (set_seed 42 initial_globals)"
    by (simp add: set_seed_def initial_globals_def)
  have a: "(2::nat) - 1 = 1" "(2::nat) + 1 = 3" "(1::nat) + 1 = 2" "(1::nat) - 1 = 0"
    by simp_all
  have "shuffle_loop 2 1 [10, 20, 30, 40, 50 :: nat] (set_seed 42 initial_globals)
      = shuffle_loop (2 - 1) 1 (swap_at (2 + 1) (1 + 1) [10, 20, 30, 40, 50])
          (initial_globals\<lparr>seed := 1059025964525\<rparr>)"
    using next_rand_int_example_1 by (intro shuffle_loop_step) (simp_all only: a, simp_all)
  then have s1: "shuffle_loop 2 1 [10, 20, 30, 40, 50 :: nat] (set_seed 42 initial_globals)
      = shuffle_loop 1 1 [10, 20, 40, 30, 50] (initial_globals\<lparr>seed := 1059025964525\<rparr>)"
    unfolding a swap_at_example .
  have "shuffle_loop 1 1 [10, 20, 40, 30, 50 :: nat] (initial_globals\<lparr>seed := 1059025964525\<rparr>)
      = shuffle_loop (1 - 1) 1 (swap_at (1 + 1) (1 + 1) [10, 20, 40, 30, 50])
          (initial_globals\<lparr>seed := 10798703498450934772\<rparr>)"
    using next_rand_int_example_2 by (intro shuffle_loop_step) (simp_all only: a, simp_all)
  then have s2: "shuffle_loop 1 1 [10, 20, 40, 30, 50 :: nat] (initial_globals\<lparr>seed := 1059025964525\<rparr>)
      = shuffle_loop 0 1 [10, 20, 40, 30, 50] (initial_globals\<lparr>seed := 10798703498450934772\<rparr>)"
    unfolding a swap_at_example .
  have "shuffle_list [10, 20, 30, 40, 50 :: nat] 1 4 (set_seed 42 initial_globals)
      = shuffle_loop 2 1 [10, 20, 30, 40, 50] (set_seed 42 initial_globals)"
    unfolding shuffle_list_def Let_def n by (rule if_P [OF ns])
  also note s1
  also note s2
  also have "shuffle_loop 0 1 [10, 20, 40, 30, 50 :: nat] (initial_globals\<lparr>seed := 10798703498450934772\<rparr>)
     = Inr ([10, 20, 40, 30, 50], initial_globals\<lparr>seed := 10798703498450934772\<rparr>)"
    by (rule shuffle_loop.simps(1))
  finally show ?thesis .
qed

text \<open>
  C6.  For a window with at least one element inside the vector, \<^verbatim>\<open>shuffle_list\<close> returns;
  the window then holds the same elements with the same multiplicities, every position
  outside the window holds what it held, and when \<^verbatim>\<open>no_scramble\<close> is set neither the
  vector nor the generator has changed.
\<close>

theorem shuffle_list_permutes_window:
  assumes "start < end'" "end' \<le> length v" "length v < 2 ^ 64"
  shows "\<exists>v' st'. shuffle_list v start end' st = Inr (v', st') \<and> length v' = length v \<and>
      mset (take (end' - start) (drop start v')) = mset (take (end' - start) (drop start v)) \<and>
      (\<forall>i<length v. i < start \<or> end' \<le> i \<longrightarrow> v' ! i = v ! i) \<and>
      (no_scramble st \<longrightarrow> v' = v \<and> st' = st)"
proof (cases "no_scramble st")
  case True
  then show ?thesis by (simp add: shuffle_list_def)
next
  case False
  have e: "end' < 2 ^ 64" using assms by linarith
  have n: "size_t_sub end' start = end' - start"
    using assms(1) e by (intro size_t_sub_small) linarith+
  have n1: "size_t_sub (end' - start) 1 = end' - start - 1"
    using assms(1) e by (intro size_t_sub_small) linarith+
  have run: "shuffle_list v start end' st = shuffle_loop (end' - start - 1) start v st"
    using False n n1 by (simp add: shuffle_list_def Let_def)
  have "(end' - start - 1) + start < length v" using assms by linarith
  from shuffle_loop_perm [OF this assms(3), of st] obtain v' st' where
    L: "shuffle_loop (end' - start - 1) start v st = Inr (v', st')" "length v' = length v"
      "mset v' = mset v"
      "\<forall>i<length v. i < start \<or> start + (end' - start - 1) < i \<longrightarrow> v' ! i = v ! i"
    by blast
  have out: "\<forall>i<length v. i < start \<or> end' \<le> i \<longrightarrow> v' ! i = v ! i"
  proof (intro allI impI)
    fix i assume i: "i < length v" "i < start \<or> end' \<le> i"
    then have "i < start \<or> start + (end' - start - 1) < i" using assms(1) by linarith
    with L(4) i(1) show "v' ! i = v ! i" by blast
  qed
  have "mset (take (end' - start) (drop start v')) = mset (take (end' - start) (drop start v))"
    using assms(1,2) L(2,3) out by (intro window_mset) simp_all
  then show ?thesis using run L(1,2) out False by simp
qed

text \<open>The window \<open>[1, 4)\<close> of a vector of five elements, with seed 42 and with
  \<^verbatim>\<open>no_scramble\<close> set.\<close>

theorem shuffle_list_permutes_window_witness:
  "(1::nat) < 4 \<and> 4 \<le> length [10, 20, 30, 40, 50 :: nat] \<and>
   shuffle_list [10, 20, 30, 40, 50 :: nat] 1 4 (set_seed 42 initial_globals)
     = Inr ([10, 20, 40, 30, 50], initial_globals\<lparr>seed := 10798703498450934772\<rparr>) \<and>
   shuffle_list [10, 20, 30, 40, 50 :: nat] 1 4 (initial_globals\<lparr>no_scramble := True\<rparr>)
     = Inr ([10, 20, 30, 40, 50], initial_globals\<lparr>no_scramble := True\<rparr>) \<and>
   (\<exists>v' st'. shuffle_list [10, 20, 30, 40, 50 :: nat] 1 4 (set_seed 42 initial_globals) = Inr (v', st') \<and>
      mset (take 3 (drop 1 v')) = {#20, 30, 40#} \<and> v' ! 0 = 10 \<and> v' ! 4 = 50)"
proof -
  have h: "(1::nat) < 4" "4 \<le> length [10, 20, 30, 40, 50 :: nat]"
    "length [10, 20, 30, 40, 50 :: nat] < 2 ^ 64" by simp_all
  have ns: "shuffle_list [10, 20, 30, 40, 50 :: nat] 1 4 (initial_globals\<lparr>no_scramble := True\<rparr>)
     = Inr ([10, 20, 30, 40, 50], initial_globals\<lparr>no_scramble := True\<rparr>)"
    by (simp add: shuffle_list_def)
  from shuffle_list_permutes_window [OF h, of "set_seed 42 initial_globals"]
  obtain v' st' where
    T: "shuffle_list [10, 20, 30, 40, 50 :: nat] 1 4 (set_seed 42 initial_globals) = Inr (v', st')"
      "mset (take (4 - 1) (drop 1 v')) = mset (take (4 - 1) (drop 1 [10, 20, 30, 40, 50 :: nat]))"
      "\<forall>i<length [10, 20, 30, 40, 50 :: nat]. i < 1 \<or> 4 \<le> i \<longrightarrow> v' ! i = [10, 20, 30, 40, 50 :: nat] ! i"
    by blast
  have "mset (take 3 (drop 1 v')) = {#20, 30, 40#}" using T(2) by simp
  moreover have "v' ! 0 = 10" using T(3) [rule_format, of 0] by simp
  moreover have "v' ! 4 = 50" using T(3) [rule_format, of 4] by simp
  ultimately show ?thesis using h(1,2) shuffle_list_example ns T(1) by blast
qed

section \<open>The reordering by ranks\<close>

lemma sorted_by_key_unique:
  fixes f :: "'a \<Rightarrow> 'b::linorder"
  assumes "mset ys = mset xs" "sorted (map f ys)" "inj_on f (set xs)"
  shows "ys = sort_key f xs"
proof -
  have "sort_key f xs = ys"
  proof (rule properties_for_sort_key)
    show "mset ys = mset xs" by (rule assms(1))
    show "sorted (map f ys)" by (rule assms(2))
    fix k assume k: "k \<in> set ys"
    have sxy: "set ys = set xs" using assms(1) by (rule mset_eq_setD)
    have "\<And>x. x \<in> set xs \<Longrightarrow> (f k = f x) = (k = x)"
      using assms(3) k sxy by (auto dest: inj_onD)
    then have "filter (\<lambda>x. f k = f x) ys = filter (\<lambda>x. k = x) ys"
      "filter (\<lambda>x. f k = f x) xs = filter (\<lambda>x. k = x) xs"
      using sxy by (auto intro: filter_cong)
    moreover have "filter (\<lambda>x. k = x) ys = filter (\<lambda>x. k = x) xs"
      using assms(1) by (metis (mono_tags, lifting) filter_mset_cong mset_filter mset_eq_length
          replicate_length_filter filter_eq_replicate_mset replicate_mset_eq_iff count_mset)
    ultimately show "filter (\<lambda>x. f k = f x) ys = filter (\<lambda>x. f k = f x) xs" by simp
  qed
  then show ?thesis by simp
qed

text \<open>
  C3.  For a window of \<open>k\<close> commands inside the vector and \<open>k\<close> ranks, whenever the
  sorting routine returns its input rearranged and ordered by the comparison (which is
  what \<^verbatim>\<open>std::sort\<close> guarantees), the window afterwards holds the commands at the input
  indices arranged by ascending rank, and the rest of the vector is unchanged.  When no
  two ranks are equal this arrangement is the only one, whatever the sorting routine.
\<close>

theorem shuffle_list_ranks_sorted:
  assumes "start \<le> end'" "end' \<le> length v" "length v < 2 ^ 64" "length ranks = end' - start"
    and "mset (std_sort (\<lambda>i j. ranks ! i < ranks ! j) [0..<end' - start]) = mset [0..<end' - start]"
    and "sorted_wrt (\<lambda>i j. \<not> ranks ! j < ranks ! i)
           (std_sort (\<lambda>i j. ranks ! i < ranks ! j) [0..<end' - start])"
  shows "\<exists>is. shuffle_list_ranks std_sort v start end' ranks
             = Inr (take start v @ map (\<lambda>i. v ! (start + i)) is @ drop end' v) \<and>
           mset is = mset [0..<end' - start] \<and>
           sorted (map (\<lambda>i. ranks ! i) is) \<and>
           (distinct ranks \<longrightarrow> is = sort_key (\<lambda>i. ranks ! i) [0..<end' - start])"
proof -
  let ?n = "end' - start"
  let ?is = "std_sort (\<lambda>i j. ranks ! i < ranks ! j) [0..<?n]"
  have e: "end' < 2 ^ 64" using assms(2,3) by linarith
  have n: "size_t_sub end' start = ?n" using assms(1) e by (rule size_t_sub_small)
  have len: "length ?is = ?n" using mset_eq_length [OF assms(5)] by simp
  have set_is: "set ?is = {0..<?n}" using mset_eq_setD [OF assms(5)] by simp
  then have all: "list_all (\<lambda>i. i < ?n) ?is" by (simp add: list_all_iff)
  have temp: "map (\<lambda>i. v ! (start + ?is ! i)) [0..<?n] = map (\<lambda>i. v ! (start + i)) ?is"
    using len by (intro nth_equalityI) simp_all
  have srt: "sorted (map (\<lambda>i. ranks ! i) ?is)"
    using assms(6) by (simp add: sorted_map not_less)
  have run: "shuffle_list_ranks std_sort v start end' ranks
      = Inr (take start v @ map (\<lambda>i. v ! (start + i)) ?is @ drop end' v)"
    using n len all temp assms(1,2,4) by (simp add: shuffle_list_ranks_def Let_def)
  have uniq: "?is = sort_key (\<lambda>i. ranks ! i) [0..<?n]" if d: "distinct ranks"
  proof (rule sorted_by_key_unique [OF assms(5) srt])
    show "inj_on ((!) ranks) (set [0..<?n])"
      using d assms(4) by (auto simp: inj_on_def nth_eq_iff_index_eq)
  qed
  show ?thesis using run assms(5) srt uniq by blast
qed

lemma upt_0_2: "[0..<2] = [0, 1::nat]"
  by code_simp

lemma insertion_sort_example:
  "insertion_sort (\<lambda>i j. [0.9, 0.1 :: real] ! i < [0.9, 0.1] ! j) [0..<2] = [1, 0]"
  by (simp add: insertion_sort_def upt_0_2)

text \<open>Two assertions \<open>A\<close>, \<open>B\<close> with the ranks 0.9 and 0.1 come out as \<open>B\<close>, \<open>A\<close>.\<close>

theorem shuffle_list_ranks_sorted_witness:
  "(1::nat) \<le> 3 \<and> 3 \<le> length [''decl'', ''A'', ''B'', ''check-sat''] \<and>
   length [0.9, 0.1 :: real] = 3 - 1 \<and> distinct [0.9, 0.1 :: real] \<and>
   insertion_sort (\<lambda>i j. [0.9, 0.1 :: real] ! i < [0.9, 0.1] ! j) [0..<3 - 1] = [1, 0] \<and>
   shuffle_list_ranks insertion_sort [''decl'', ''A'', ''B'', ''check-sat''] 1 3 [0.9, 0.1]
     = Inr [''decl'', ''B'', ''A'', ''check-sat'']"
proof -
  let ?v = "[''decl'', ''A'', ''B'', ''check-sat'']" and ?r = "[0.9, 0.1 :: real]"
  have n: "3 - 1 = (2::nat)" by simp
  have h: "(1::nat) \<le> 3" "3 \<le> length ?v" "length ?v < 2 ^ 64" "length ?r = 3 - 1"
    by simp_all
  have c1: "mset (insertion_sort (\<lambda>i j. ?r ! i < ?r ! j) [0..<3 - 1]) = mset [0..<3 - 1]"
    unfolding n insertion_sort_example by (simp add: upt_0_2)
  have c2: "sorted_wrt (\<lambda>i j. \<not> ?r ! j < ?r ! i) (insertion_sort (\<lambda>i j. ?r ! i < ?r ! j) [0..<3 - 1])"
    unfolding n insertion_sort_example by simp
  have d: "distinct ?r" by simp
  from shuffle_list_ranks_sorted [where std_sort = insertion_sort and v = ?v and start = 1
      and end' = 3 and ranks = ?r, OF h c1 c2] d obtain "is" where
    T: "shuffle_list_ranks insertion_sort ?v 1 3 ?r
          = Inr (take 1 ?v @ map (\<lambda>i. ?v ! (1 + i)) is @ drop 3 ?v)"
       "is = sort_key (\<lambda>i. ?r ! i) [0..<3 - 1]"
    by blast
  have "is = [1, 0]" unfolding T(2) n upt_0_2 by simp
  with T(1) have "shuffle_list_ranks insertion_sort ?v 1 3 ?r = Inr [''decl'', ''B'', ''A'', ''check-sat'']"
    by simp
  then show ?thesis using h(1,2,4) d insertion_sort_example n by simp
qed

section \<open>The filter by an unsat core\<close>

lemma filter_named_loop_filter:
  "k \<le> i \<Longrightarrow> i \<le> length cmds \<Longrightarrow>
   take (fst (filter_named_loop K i k cmds)) (snd (filter_named_loop K i k cmds))
     = take k cmds @ filter (kept K) (drop i cmds)"
proof (induction K i k cmds rule: filter_named_loop.induct)
  case (1 K i k cmds)
  show ?case
  proof (cases "i < length cmds")
    case False
    then have "filter_named_loop K i k cmds = (k, cmds)"
      by (subst filter_named_loop.simps) simp
    then show ?thesis using False "1.prems" by simp
  next
    case True
    let ?cur = "cmds ! i"
    have d: "drop i cmds = ?cur # drop (Suc i) cmds"
      using True by (simp add: Cons_nth_drop_Suc)
    show ?thesis
    proof (cases "kept K ?cur")
      case k: True
      have run: "filter_named_loop K i k cmds = filter_named_loop K (i + 1) (k + 1) (cmds[k := ?cur])"
        using True k by (subst filter_named_loop.simps) (auto simp: kept_def Let_def)
      have kl: "k < length cmds" using "1.prems" True by linarith
      have "take (fst (filter_named_loop K (i + 1) (k + 1) (cmds[k := ?cur])))
              (snd (filter_named_loop K (i + 1) (k + 1) (cmds[k := ?cur])))
          = take (k + 1) (cmds[k := ?cur]) @ filter (kept K) (drop (i + 1) (cmds[k := ?cur]))"
        using True k "1.prems" by (intro "1.IH"(1) [OF True refl]) (auto simp: kept_def)
      also have "take (k + 1) (cmds[k := ?cur]) = take k cmds @ [?cur]"
        using kl by (simp add: take_Suc_conv_app_nth)
      also have "drop (i + 1) (cmds[k := ?cur]) = drop (Suc i) cmds"
        using "1.prems" by simp
      finally show ?thesis using run d k by simp
    next
      case k: False
      have run: "filter_named_loop K i k cmds = filter_named_loop K (i + 1) k cmds"
        using True k by (subst filter_named_loop.simps) (auto simp: kept_def Let_def)
      have "take (fst (filter_named_loop K (i + 1) k cmds)) (snd (filter_named_loop K (i + 1) k cmds))
          = take k cmds @ filter (kept K) (drop (i + 1) cmds)"
        using True k "1.prems" by (intro "1.IH"(2) [OF True refl]) (auto simp: kept_def)
      then show ?thesis using run d k by simp
    qed
  qed
qed

text \<open>
  C7.  \<^verbatim>\<open>filter_named\<close> changes nothing but \<^verbatim>\<open>commands\<close>, and leaves there, in their
  order, exactly the commands that are no assertion, the assertions for which
  \<^verbatim>\<open>get_named_annot\<close> returns the empty text, and the assertions for which it returns a
  member of the set.
\<close>

theorem filter_named_subsequence:
  "filter_named to_keep st =
     st\<lparr>commands :=
          filter (\<lambda>c. symbol (snd c) \<noteq> ''assert'' \<or> get_named_annot (snd c) = [] \<or>
                      get_named_annot (snd c) \<in> to_keep) (commands st)\<rparr>"
proof -
  have "take (fst (filter_named_loop to_keep 0 0 (commands st)))
          (snd (filter_named_loop to_keep 0 0 (commands st)))
      = take 0 (commands st) @ filter (kept to_keep) (drop 0 (commands st))"
    by (rule filter_named_loop_filter) simp_all
  moreover have "kept to_keep = (\<lambda>c. symbol (snd c) \<noteq> ''assert'' \<or> get_named_annot (snd c) = [] \<or>
                      get_named_annot (snd c) \<in> to_keep)"
    by (auto simp: kept_def fun_eq_iff)
  ultimately show ?thesis by (auto simp: filter_named_def split: prod.split)
qed

text \<open>With the core \<open>{a1}\<close>, the assertion named \<open>a2\<close> is dropped; the one named \<open>a1\<close>,
  the unnamed one and the other commands stay.\<close>

theorem filter_named_subsequence_witness:
  "commands (filter_named {''a1''}
     (initial_globals\<lparr>commands :=
        [(100, Node ''declare-fun'' False True [make_name_node ''p'' []]),
         (101, Node ''assert'' False True
                 [Node ''!'' False True
                    [make_name_node ''p'' [], Node '':named'' False False [make_node ''a1'' []]]]),
         (102, Node ''assert'' False True [make_name_node ''q'' []]),
         (103, Node ''assert'' False True
                 [Node ''!'' False True
                    [make_name_node ''r'' [], Node '':named'' False False [make_node ''a2'' []]]]),
         (104, Node ''check-sat'' False True [])]\<rparr>))
   = [(100, Node ''declare-fun'' False True [make_name_node ''p'' []]),
      (101, Node ''assert'' False True
                 [Node ''!'' False True
                    [make_name_node ''p'' [], Node '':named'' False False [make_node ''a1'' []]]]),
      (102, Node ''assert'' False True [make_name_node ''q'' []]),
      (104, Node ''check-sat'' False True [])]"
  by (simp add: filter_named_subsequence get_named_annot_def make_node_def make_name_node_def)

section \<open>The core file\<close>

lemma token_nonempty:
  assumes "x \<in> set s" "\<not> isspace x"
  shows "takeWhile (\<lambda>ch. \<not> isspace ch) (dropWhile isspace s) \<noteq> []"
proof -
  have "dropWhile isspace s \<noteq> []" using assms by (auto simp: dropWhile_eq_Nil_conv)
  then obtain ch r0 where "dropWhile isspace s = ch # r0" "\<not> isspace ch"
    by (metis hd_dropWhile list.exhaust_sel)
  then show ?thesis by simp
qed

lemma read_names_returns_true:
  "name \<noteq> [] \<Longrightarrow> fst (read_names src finished name names)"
proof (induction src finished name names rule: read_names.induct)
  case (1 src finished name names)
  show ?case
  proof (cases "\<not> failbit src \<and> \<not> finished")
    case False
    then show ?thesis by (subst read_names.simps) auto
  next
    case True
    obtain src' name' where r: "read_string src name = (src', name')"
      by (cases "read_string src name")
    have ne: "name' \<noteq> []"
      using r "1.prems" by (auto simp: read_string_def Let_def token_nonempty split: if_splits)
    let ?fin = "last name' = CHR '')''"
    let ?name = "if ?fin then butlast name' else name'"
    let ?names = "if ?name \<noteq> [] then insert ?name names else names"
    have step: "read_names src finished name names = read_names src' ?fin ?name ?names"
      using True r ne by (subst read_names.simps) (simp add: Let_def)
    show ?thesis
    proof (cases "?name = []")
      case True
      then have "?fin" using ne by (auto split: if_splits)
      then have "read_names src' ?fin ?name ?names = (True, ?names)"
        by (subst read_names.simps) simp
      then show ?thesis using step by simp
    next
      case False
      have "fst (read_names src' ?fin ?name ?names)"
        using "1.IH" [OF True r [symmetric] ne refl refl] False by simp
      then show ?thesis using step by simp
    qed
  qed
qed

text \<open>
  C9.  The claim has \<^verbatim>\<open>parse_core\<close> return false for a list that is never closed.  On
  the file \<open>unsat (a b\<close> the code returns true with the names \<open>a\<close> and \<open>b\<close>: at the end
  of the input \<^verbatim>\<open>src >> name\<close> fails without clearing \<^verbatim>\<open>name\<close>, so the test
  \<^verbatim>\<open>name.empty()\<close> does not see the failure, and the loop ends because the stream has
  failed.  On the file \<open>unsat (\<close> it returns true with the name \<open>unsat\<close>.  Whatever
  follows \<open>unsat (\<close>, the result is true.
\<close>

theorem parse_core_accepts_unterminated_list:
  "parse_core (opened ''unsat (a b'') {} = (True, {''a'', ''b''}) \<and>
   parse_core (opened ''unsat ('') {} = (True, {''unsat''}) \<and>
   (\<forall>tail names. fst (parse_core (opened (''unsat ('' @ tail)) names))"
proof (intro conjI allI)
  show "parse_core (opened ''unsat (a b'') {} = (True, {''a'', ''b''})"
    by (simp add: parse_core_def opened_def read_string_def get_char_def isspace_def Let_def
        read_names.simps insert_commute)
  show "parse_core (opened ''unsat ('') {} = (True, {''unsat''})"
    by (simp add: parse_core_def opened_def read_string_def get_char_def isspace_def Let_def
        read_names.simps)
  fix tail names
  have "fst (read_names \<lparr>rest = tail, eofbit = False, failbit = False\<rparr> False ''unsat'' names)"
    by (rule read_names_returns_true) simp
  then show "fst (parse_core (opened (''unsat ('' @ tail)) names)"
    by (simp add: parse_core_def opened_def read_string_def get_char_def isspace_def Let_def)
qed

section \<open>The print pass by ranks: runs\<close>

lemma decimal_digit: "n < 10 \<Longrightarrow> decimal n = [''0123456789'' ! n]"
  by (subst decimal.simps) simp

lemma make_name_small: "make_name 1 = ''x1''" "make_name 2 = ''x2''"
  by (simp_all add: make_name_def decimal_digit)

lemma shuffle_list_ranks_error:
  "shuffle_list_ranks std_sort v start end' ranks = Inl e \<Longrightarrow> e = Undefined_behaviour"
  by (auto simp: shuffle_list_ranks_def Let_def split: if_splits)

lemma sort_declarations_error:
  "sort_declarations start end' st = Inl e \<Longrightarrow> e = Undefined_behaviour"
  by (auto simp: sort_declarations_def split: if_splits prod.splits)

lemma rank_loop_error: "rank_loop std_sort i st = Inl e \<Longrightarrow> e = Undefined_behaviour"
proof (induction std_sort i st rule: rank_loop.induct)
  case (1 std_sort i st)
  let ?j = "scan_while is_assert (commands st) (i + 1)"
  let ?r = "shuffle_list_ranks std_sort (commands st) i ?j (get_ranks (?j - i) st)"
  show ?case
  proof (cases "i < length (commands st)")
    case False
    then have "rank_loop std_sort i st = Inr st" by (subst rank_loop.simps) simp
    with "1.prems" show ?thesis by simp
  next
    case i: True
    show ?thesis
    proof (cases "symbol (snd (commands st ! i)) = ''assert''")
      case False
      then have "rank_loop std_sort i st = rank_loop std_sort (i + 1) st"
        using i by (subst rank_loop.simps) simp
      with "1.prems" "1.IH"(3) [OF i refl] False show ?thesis by simp
    next
      case a: True
      then have a': "symbol (snd (commands st ! i)) = ''assert'' \<and> \<not> False" by simp
      show ?thesis
      proof (cases "?j - i > 1")
        case False
        then have "rank_loop std_sort i st = rank_loop std_sort ?j st"
          using i a by (subst rank_loop.simps) (simp add: Let_def)
        with "1.prems" "1.IH"(2) [OF i refl a' refl refl False] show ?thesis by simp
      next
        case l: True
        show ?thesis
        proof (cases ?r)
          case (Inl e')
          then have "rank_loop std_sort i st = Inl e'"
            using i a l by (subst rank_loop.simps) (simp add: Let_def)
          with "1.prems" shuffle_list_ranks_error [OF Inl] show ?thesis by simp
        next
          case (Inr cmds')
          then have "rank_loop std_sort i st = rank_loop std_sort ?j (st\<lparr>commands := cmds'\<rparr>)"
            using i a l by (subst rank_loop.simps) (simp add: Let_def)
          with "1.prems" "1.IH"(1) [OF i refl a' refl refl l Inr] show ?thesis by simp
        qed
      qed
    qed
  qed
qed

lemma decl_loop_error: "decl_loop i st = Inl e \<Longrightarrow> e = Undefined_behaviour"
proof (induction i st rule: decl_loop.induct)
  case (1 i st)
  let ?j = "scan_while is_decl (commands st) (i + 1)"
  show ?case
  proof (cases "i < length (commands st)")
    case False
    then have "decl_loop i st = Inr st" by (subst decl_loop.simps) simp
    with "1.prems" show ?thesis by simp
  next
    case i: True
    show ?thesis
    proof (cases "is_decl (commands st ! i)")
      case False
      then have "decl_loop i st = decl_loop (i + 1) st"
        using i by (subst decl_loop.simps) simp
      with "1.prems" "1.IH"(3) [OF i refl] False show ?thesis by simp
    next
      case a: True
      then have a': "is_decl (commands st ! i) \<and> \<not> False" by simp
      show ?thesis
      proof (cases "?j - i > 1")
        case False
        then have "decl_loop i st = decl_loop ?j st"
          using i a by (subst decl_loop.simps) (simp add: Let_def)
        with "1.prems" "1.IH"(2) [OF i refl a' refl False] show ?thesis by simp
      next
        case l: True
        show ?thesis
        proof (cases "sort_declarations i ?j st")
          case (Inl e')
          then have "decl_loop i st = Inl e'"
            using i a l by (subst decl_loop.simps) (simp add: Let_def)
          with "1.prems" sort_declarations_error [OF Inl] show ?thesis by simp
        next
          case (Inr st')
          then have "decl_loop i st = decl_loop ?j st'"
            using i a l by (subst decl_loop.simps) (simp add: Let_def)
          with "1.prems" "1.IH"(1) [OF i refl a' refl l Inr] show ?thesis by simp
        qed
      qed
    qed
  qed
qed

lemma print_node_sorted_error:
  "print_node_sorted ka n st = Inl e \<Longrightarrow> e = Undefined_behaviour"
  "print_children_sorted ka nospace cs st = Inl e \<Longrightarrow> e = Undefined_behaviour"
  by (induction ka n st and ka nospace cs st rule: print_node_sorted_print_children_sorted.induct)
    (auto simp: Let_def split: if_splits list.splits sum.splits prod.splits)

lemma print_all_error: "print_all ka cmds st = Inl e \<Longrightarrow> e = Undefined_behaviour"
  by (induction cmds arbitrary: st)
    (auto simp: print_command_sorted_def split: sum.splits dest: print_node_sorted_error(1))

lemma print_ranked_error: "print_ranked std_sort ka st = Inl e \<Longrightarrow> e = Undefined_behaviour"
  by (auto simp: print_ranked_def split: sum.splits
      dest: rank_loop_error decl_loop_error print_all_error)

text \<open>
  C5.  The claim has \<^verbatim>\<open>print_ranked\<close> abort when the assertions, or the declarations,
  form more than one run.  The buffer below has two runs of each kind.  The code prints
  all six commands and returns: \<^verbatim>\<open>already\<close> is declared inside the loop body and is
  false at every test, so the branch with the \<^verbatim>\<open>throw\<close> is never taken.  No buffer
  makes \<^verbatim>\<open>print_ranked\<close> throw \<^verbatim>\<open>std::invalid_argument\<close>.
\<close>

theorem print_ranked_split_runs_no_abort:
  "print_ranked insertion_sort all
     (initial_globals\<lparr>commands :=
        [(100, Node ''declare-fun'' False True
                 [make_name_node ''p'' [], Node [] False True [], make_node ''Bool'' []]),
         (200, Node ''assert'' False True [make_name_node ''p'' []]),
         (300, Node ''push'' False True [make_node ''1'' []]),
         (400, Node ''declare-fun'' False True
                 [make_name_node ''q'' [], Node [] False True [], make_node ''Bool'' []]),
         (500, Node ''assert'' False True [make_name_node ''q'' []]),
         (600, Node ''check-sat'' False True [])]\<rparr>)
   = Inr (initial_globals\<lparr>name_ids_sorted := [''p'' \<mapsto> 1, ''q'' \<mapsto> 2],
        next_name_id_sorted := 3,
        cout := ''(declare-fun x1 () Bool)'' @ endl @ ''(assert x1)'' @ endl @
                ''(push 1)'' @ endl @ ''(declare-fun x2 () Bool)'' @ endl @
                ''(assert x2)'' @ endl @ ''(check-sat)'' @ endl\<rparr>) \<and>
   (\<forall>std_sort ka st msg. print_ranked std_sort ka st \<noteq> Inl (Invalid_argument msg))"
proof (intro conjI allI)
  show "print_ranked insertion_sort all
     (initial_globals\<lparr>commands :=
        [(100, Node ''declare-fun'' False True
                 [make_name_node ''p'' [], Node [] False True [], make_node ''Bool'' []]),
         (200, Node ''assert'' False True [make_name_node ''p'' []]),
         (300, Node ''push'' False True [make_node ''1'' []]),
         (400, Node ''declare-fun'' False True
                 [make_name_node ''q'' [], Node [] False True [], make_node ''Bool'' []]),
         (500, Node ''assert'' False True [make_name_node ''q'' []]),
         (600, Node ''check-sat'' False True [])]\<rparr>)
   = Inr (initial_globals\<lparr>name_ids_sorted := [''p'' \<mapsto> 1, ''q'' \<mapsto> 2],
        next_name_id_sorted := 3,
        cout := ''(declare-fun x1 () Bool)'' @ endl @ ''(assert x1)'' @ endl @
                ''(push 1)'' @ endl @ ''(declare-fun x2 () Bool)'' @ endl @
                ''(assert x2)'' @ endl @ ''(check-sat)'' @ endl\<rparr>)"
    by (simp add: print_ranked_def rank_loop.simps decl_loop.simps scan_while.simps
      initial_globals_def make_name_node_def make_node_def is_assert_def is_decl_def
      get_ranks_def set_new_name_sorted_def get_name_id_sorted_def unquote_def is_var_def
      print_command_sorted_def print_open_def print_close_def keep_annotation_def put_def
      make_name_small endl_def Let_def)
next
  fix std_sort ka st msg
  show "print_ranked std_sort ka st \<noteq> Inl (Invalid_argument msg)"
    using print_ranked_error [of std_sort ka st "Invalid_argument msg"] by auto
qed

section \<open>The declaration sort\<close>

lemma get_name_id_sorted_lookup:
  "get_name_id_sorted n st = (t, st') \<Longrightarrow>
     t = lookup_sorted st n \<and> lookup_sorted st' = lookup_sorted st"
  by (auto simp: get_name_id_sorted_def lookup_sorted_def Let_def fun_eq_iff
      split: option.splits if_splits)

lemma find_var_lookup:
  "find_var n st = (t, st') \<Longrightarrow> lookup_sorted st' = lookup_sorted st"
  by (induction n st rule: find_var.induct)
    (auto split: option.splits list.splits if_splits dest: get_name_id_sorted_lookup)

lemma find_var_depends_on_lookup:
  "lookup_sorted st1 = lookup_sorted st2 \<Longrightarrow> fst (find_var n st1) = fst (find_var n st2)"
proof (induction n st1 arbitrary: st2 rule: find_var.induct)
  case (1 s nm np cs st)
  show ?case
  proof (cases "find is_var cs")
    case (Some c)
    obtain t1 s1 where a: "get_name_id_sorted (symbol c) st = (t1, s1)"
      by (cases "get_name_id_sorted (symbol c) st")
    obtain t2 s2 where b: "get_name_id_sorted (symbol c) st2 = (t2, s2)"
      by (cases "get_name_id_sorted (symbol c) st2")
    from get_name_id_sorted_lookup [OF a] get_name_id_sorted_lookup [OF b] "1.prems"
    have "t1 = t2" by simp
    with Some a b show ?thesis by simp
  next
    case None
    show ?thesis
    proof (cases cs)
      case Nil
      with None show ?thesis by simp
    next
      case (Cons c0 cs')
      show ?thesis
      proof (cases "s \<noteq> []")
        case True
        with None Cons "1.IH"(1) [OF None Cons True "1.prems"] show ?thesis by simp
      next
        case False
        show ?thesis
        proof (cases cs')
          case Nil
          with None Cons False show ?thesis by simp
        next
          case c1: (Cons c1 cs'')
          with None Cons False "1.IH"(2) [OF None Cons False c1 "1.prems"] show ?thesis by simp
        qed
      qed
    qed
  qed
qed

lemma tag_commands_tags:
  "tag_commands cs st = (ps, st') \<Longrightarrow>
     ps = map (\<lambda>cm. (find_var_tag st (snd cm), cm)) cs \<and> lookup_sorted st' = lookup_sorted st"
proof (induction cs arbitrary: st ps st')
  case Nil
  then show ?case by simp
next
  case (Cons c cs)
  obtain t st1 where f: "find_var (snd c) st = (t, st1)" by (cases "find_var (snd c) st")
  obtain ps1 st2 where g: "tag_commands cs st1 = (ps1, st2)" by (cases "tag_commands cs st1")
  from Cons.prems f g have e: "ps = (t, c) # ps1" "st' = st2" by simp_all
  have l: "lookup_sorted st1 = lookup_sorted st" using f by (rule find_var_lookup)
  have "\<And>n. find_var_tag st1 n = find_var_tag st n"
    unfolding find_var_tag_def using l by (rule find_var_depends_on_lookup)
  then have "map (\<lambda>cm. (find_var_tag st1 (snd cm), cm)) cs = map (\<lambda>cm. (find_var_tag st (snd cm), cm)) cs"
    by simp
  with Cons.IH [OF g] l e f show ?case by (simp add: find_var_tag_def)
qed

lemma insort_key_tagged:
  "insort_key (\<lambda>(t, cm). (t, fst cm)) (f x, x) (map (\<lambda>cm. (f cm, cm)) ys)
     = map (\<lambda>cm. (f cm, cm)) (insort_key (\<lambda>cm. (f cm, fst cm)) x ys)"
  by (induction ys) simp_all

lemma sort_key_tagged:
  "sort_key (\<lambda>(t, cm). (t, fst cm)) (map (\<lambda>cm. (f cm, cm)) xs)
     = map (\<lambda>cm. (f cm, cm)) (sort_key (\<lambda>cm. (f cm, fst cm)) xs)"
  by (induction xs) (simp_all add: insort_key_tagged)

lemma sorted_fst_of_pairs:
  fixes ks :: "('a::linorder \<times> 'b::linorder) list"
  shows "sorted ks \<Longrightarrow> sorted (map fst ks)"
  by (induction ks) (auto simp: less_eq_prod_def)

text \<open>The tag that \<^verbatim>\<open>find_var\<close> returns is the identifier of the node its search stops at.\<close>

lemma find_var_found_name:
  "fst (find_var n st) = found_tag st n"
proof (induction n st rule: find_var.induct)
  case (1 s nm np cs st)
  show ?case
  proof (cases "find is_var cs")
    case (Some c)
    obtain t1 s1 where a: "get_name_id_sorted (symbol c) st = (t1, s1)"
      by (cases "get_name_id_sorted (symbol c) st")
    from get_name_id_sorted_lookup [OF a] Some a show ?thesis by (simp add: found_tag_def)
  next
    case None
    show ?thesis
    proof (cases cs)
      case Nil
      with None show ?thesis by (simp add: found_tag_def)
    next
      case (Cons c0 cs')
      show ?thesis
      proof (cases "s \<noteq> []")
        case True
        with None Cons "1.IH"(1) [OF None Cons True] show ?thesis by (simp add: found_tag_def)
      next
        case False
        show ?thesis
        proof (cases cs')
          case Nil
          with None Cons False show ?thesis by (simp add: found_tag_def)
        next
          case c1: (Cons c1 cs'')
          with None Cons False "1.IH"(2) [OF None Cons False c1] show ?thesis
            by (simp add: found_tag_def)
        qed
      qed
    qed
  qed
qed

text \<open>The first name in depth-first order is the first one in the list of descendants.\<close>

lemma find_over_append:
  "find P (xs @ ys) = (case find P xs of None \<Rightarrow> find P ys | Some x \<Rightarrow> Some x)"
  by (induction xs) simp_all

lemma first_name_descendants:
  "first_name n = find is_var (descendants n)"
  "first_name_list cs = find is_var (descendants_list cs)"
  by (induction n and cs rule: first_name_first_name_list.induct)
    (simp_all add: find_over_append split: option.splits)

lemma descendants_list_child:
  "c \<in> set cs \<Longrightarrow> set (c # descendants c) \<subseteq> set (descendants_list cs)"
  by (induction cs) auto

lemma found_name_descendant:
  "found_name n = Some d \<Longrightarrow> d \<in> set (descendants n) \<and> is_var d"
proof (induction n rule: found_name.induct)
  case (1 s nm np cs)
  show ?case
  proof (cases "find is_var cs")
    case (Some c)
    with "1.prems" have "c = d" by simp
    with Some have "d \<in> set cs" "is_var d" by (auto simp: find_Some_iff)
    with descendants_list_child [of d cs] show ?thesis by auto
  next
    case None
    show ?thesis
    proof (cases cs)
      case Nil
      with None "1.prems" show ?thesis by simp
    next
      case (Cons c0 cs')
      show ?thesis
      proof (cases "s \<noteq> []")
        case True
        with None Cons "1.prems" have "found_name c0 = Some d" by simp
        from "1.IH"(1) [OF None Cons True this] Cons show ?thesis by simp
      next
        case False
        show ?thesis
        proof (cases cs')
          case Nil
          with None Cons False "1.prems" show ?thesis by simp
        next
          case c1: (Cons c1 cs'')
          with None Cons False "1.prems" have "found_name c1 = Some d" by simp
          from "1.IH"(2) [OF None Cons False c1 this] Cons c1 show ?thesis by simp
        qed
      qed
    qed
  qed
qed

lemma found_name_none: "first_name n = None \<Longrightarrow> found_name n = None"
proof (rule ccontr)
  assume a: "first_name n = None" and "found_name n \<noteq> None"
  then obtain d where "found_name n = Some d" by auto
  from found_name_descendant [OF this] a show False
    by (auto simp: first_name_descendants find_None_iff)
qed

lemma found_name_first_child:
  "children n = c # cs \<Longrightarrow> is_var c \<Longrightarrow> found_name n = Some c \<and> first_name n = Some c"
  by (cases n) simp

text \<open>
  C4, as the code has it.  For a run of at least one command inside the buffer,
  \<^verbatim>\<open>sort_declarations\<close> returns; the run then holds the same commands, ordered by the
  tag of each command and, for equal tags, by the address of the command's node; the
  rest of the buffer is unchanged and no lookup returns another value than before.
  The tag that \<^verbatim>\<open>find_var\<close> returns for a command is the identifier of the node at which
  its search stops, and 0 when it stops at none.  That node is a descendant that refers
  to a declared name other than \<open>=\<close>: the first child that does, before any deeper
  descendant.  The tag is 0 when no descendant refers to a declared name (the claim's
  search finds none), and it is the identifier of the first such descendant in
  depth-first order when the first child of the command is one.
\<close>

theorem sort_declarations_by_tag_then_address:
  assumes "start < end'" "end' \<le> length (commands st)"
  shows "\<exists>st'. sort_declarations start end' st = Inr st' \<and>
      commands st' =
        take start (commands st) @
        sort_key (\<lambda>cm. (found_tag st (snd cm), fst cm))
          (take (end' - start) (drop start (commands st))) @
        drop end' (commands st) \<and>
      mset (take (end' - start) (drop start (commands st'))) =
        mset (take (end' - start) (drop start (commands st))) \<and>
      sorted (map (\<lambda>cm. found_tag st (snd cm)) (take (end' - start) (drop start (commands st')))) \<and>
      lookup_sorted st' = lookup_sorted st \<and>
      (\<forall>n. fst (find_var n st) = found_tag st n) \<and>
      (\<forall>n d. found_name n = Some d \<longrightarrow> d \<in> set (descendants n) \<and> is_var d) \<and>
      (\<forall>n d. find is_var (children n) = Some d \<longrightarrow> found_tag st n = lookup_sorted st (symbol d)) \<and>
      (\<forall>n. find is_var (descendants n) = None \<longrightarrow> found_tag st n = 0) \<and>
      (\<forall>n. first_name n = None \<longrightarrow> fst (find_var n st) = 0) \<and>
      (\<forall>n c cs. children n = c # cs \<and> is_var c \<longrightarrow> found_tag st n = spec_tag st n)"
proof -
  let ?w = "take (end' - start) (drop start (commands st))"
  let ?key = "\<lambda>cm. (found_tag st (snd cm), fst cm)"
  have ft: "find_var_tag st = found_tag st"
    by (rule ext) (simp add: find_var_tag_def find_var_found_name)
  obtain ps st1 where t: "tag_commands ?w st = (ps, st1)" by (cases "tag_commands ?w st")
  have c: "commands st1 = commands st" using tag_commands_commands [OF t] by simp
  have p: "ps = map (\<lambda>cm. (found_tag st (snd cm), cm)) ?w" "lookup_sorted st1 = lookup_sorted st"
    using tag_commands_tags [OF t] unfolding ft by simp_all
  have s: "map snd (sort_key (\<lambda>(t, cm). (t, fst cm)) ps) = sort_key ?key ?w"
    unfolding p(1) sort_key_tagged by (simp add: comp_def)
  let ?st' = "st1\<lparr>commands := take start (commands st) @ sort_key ?key ?w @ drop end' (commands st)\<rparr>"
  have run: "sort_declarations start end' st = Inr ?st'"
    using assms t c s by (simp add: sort_declarations_def)
  have lw: "length (sort_key ?key ?w) = end' - start" using assms by simp
  have l1: "length (take start (commands st)) = start" using assms by simp
  have cs': "commands ?st' = take start (commands st) @ sort_key ?key ?w @ drop end' (commands st)"
    by simp
  have "drop (length (take start (commands st)))
      (take start (commands st) @ (sort_key ?key ?w @ drop end' (commands st)))
      = sort_key ?key ?w @ drop end' (commands st)"
    by (rule append_eq_conv_conj [THEN iffD1, THEN conjunct2, symmetric]) (rule refl)
  then have "drop start (commands ?st') = sort_key ?key ?w @ drop end' (commands st)"
    unfolding l1 cs' .
  then have win: "take (end' - start) (drop start (commands ?st')) = sort_key ?key ?w"
    using lw by simp
  have lk: "lookup_sorted ?st' = lookup_sorted st"
  proof (rule ext)
    fix n
    show "lookup_sorted ?st' n = lookup_sorted st n"
      using fun_cong [OF p(2), of n] by (simp add: lookup_sorted_def)
  qed
  have "sorted (map ?key (sort_key ?key ?w))" by (rule sorted_sort_key)
  then have "sorted (map fst (map ?key (sort_key ?key ?w)))" by (rule sorted_fst_of_pairs)
  then have srt: "sorted (map (\<lambda>cm. found_tag st (snd cm)) (sort_key ?key ?w))"
    by (simp add: comp_def)
  have direct: "found_tag st n = lookup_sorted st (symbol d)"
    if "find is_var (children n) = Some d" for n d
    using that by (cases n) (simp add: found_tag_def)
  have tag_zero: "found_tag st n = 0" if "find is_var (descendants n) = None" for n
  proof -
    from that have "first_name n = None" by (simp add: first_name_descendants)
    then have "found_name n = None" by (rule found_name_none)
    then show ?thesis by (simp add: found_tag_def)
  qed
  have tag_first: "found_tag st n = spec_tag st n" if "children n = c # cs \<and> is_var c" for n c cs
  proof -
    from that have "found_name n = Some c \<and> first_name n = Some c"
      by (simp add: found_name_first_child)
    then show ?thesis by (simp add: found_tag_def spec_tag_def)
  qed
  have ms: "mset (take (end' - start) (drop start (commands ?st'))) = mset ?w"
    unfolding win by simp
  have srt': "sorted (map (\<lambda>cm. found_tag st (snd cm))
      (take (end' - start) (drop start (commands ?st'))))"
    unfolding win by (rule srt)
  show ?thesis
  proof (intro exI [of _ ?st'] conjI allI impI)
    show "sort_declarations start end' st = Inr ?st'" by (rule run)
    show "commands ?st' = take start (commands st) @ sort_key ?key ?w @ drop end' (commands st)"
      by (rule cs')
    show "mset (take (end' - start) (drop start (commands ?st'))) = mset ?w" by (rule ms)
    show "sorted (map (\<lambda>cm. found_tag st (snd cm))
      (take (end' - start) (drop start (commands ?st'))))" by (rule srt')
    show "lookup_sorted ?st' = lookup_sorted st" by (rule lk)
    show "fst (find_var n st) = found_tag st n" for n by (rule find_var_found_name)
    show "d \<in> set (descendants n)" if "found_name n = Some d" for n d
      using found_name_descendant [OF that] by simp
    show "is_var d" if "found_name n = Some d" for n d
      using found_name_descendant [OF that] by simp
    show "found_tag st n = lookup_sorted st (symbol d)"
      if "find is_var (children n) = Some d" for n d
      using that by (rule direct)
    show "found_tag st n = 0" if "find is_var (descendants n) = None" for n
      using that by (rule tag_zero)
    show "fst (find_var n st) = 0" if "first_name n = None" for n
      using that tag_zero [of n] by (simp add: find_var_found_name first_name_descendants)
    show "found_tag st n = spec_tag st n" if "children n = c # cs \<and> is_var c" for n c cs
      using that by (rule tag_first)
  qed
qed

text \<open>
  C4, as the claim states it, fails twice.  Two declarations whose names occur in no
  assertion both have the tag 0, and the one at the lower address comes first, although
  it was second in the input.  And with \<open>x\<close>, \<open>y\<close>, \<open>z\<close> registered as 1, 2, 3, a
  command with the children \<open>(f x)\<close> and \<open>z\<close> gets the tag 3 of its child \<open>z\<close>, not
  the tag 1 of \<open>x\<close>, the first name in depth-first order; so it comes after a command
  with the tag 2, where the claim has it before.
\<close>

theorem sort_declarations_not_stable_not_depth_first:
  "map_sum id commands
     (sort_declarations 0 2
        (initial_globals\<lparr>commands :=
           [(200, Node ''declare-fun'' False True
                    [make_name_node ''f'' [], Node [] False True [], make_node ''Bool'' []]),
            (100, Node ''declare-fun'' False True
                    [make_name_node ''g'' [], Node [] False True [], make_node ''Bool'' []])]\<rparr>))
   = Inr [(100, Node ''declare-fun'' False True
                  [make_name_node ''g'' [], Node [] False True [], make_node ''Bool'' []]),
          (200, Node ''declare-fun'' False True
                  [make_name_node ''f'' [], Node [] False True [], make_node ''Bool'' []])] \<and>
   sort_declarations_spec 0 2
        (initial_globals\<lparr>commands :=
           [(200, Node ''declare-fun'' False True
                    [make_name_node ''f'' [], Node [] False True [], make_node ''Bool'' []]),
            (100, Node ''declare-fun'' False True
                    [make_name_node ''g'' [], Node [] False True [], make_node ''Bool'' []])]\<rparr>)
   = [(200, Node ''declare-fun'' False True
                  [make_name_node ''f'' [], Node [] False True [], make_node ''Bool'' []]),
      (100, Node ''declare-fun'' False True
                  [make_name_node ''g'' [], Node [] False True [], make_node ''Bool'' []])] \<and>
   fst (find_var (Node ''define-fun'' False True
                    [make_node ''f'' [make_name_node ''x'' []], make_name_node ''z'' []])
          (initial_globals\<lparr>name_ids_sorted := [''x'' \<mapsto> 1, ''y'' \<mapsto> 2, ''z'' \<mapsto> 3]\<rparr>)) = 3 \<and>
   spec_tag (initial_globals\<lparr>name_ids_sorted := [''x'' \<mapsto> 1, ''y'' \<mapsto> 2, ''z'' \<mapsto> 3]\<rparr>)
     (Node ''define-fun'' False True
        [make_node ''f'' [make_name_node ''x'' []], make_name_node ''z'' []]) = 1 \<and>
   map_sum id commands
     (sort_declarations 0 2
        (initial_globals\<lparr>name_ids_sorted := [''x'' \<mapsto> 1, ''y'' \<mapsto> 2, ''z'' \<mapsto> 3],
           commands :=
             [(100, Node ''define-fun'' False True
                      [make_node ''f'' [make_name_node ''x'' []], make_name_node ''z'' []]),
              (200, Node ''declare-fun'' False True [make_name_node ''y'' []])]\<rparr>))
   = Inr [(200, Node ''declare-fun'' False True [make_name_node ''y'' []]),
          (100, Node ''define-fun'' False True
                  [make_node ''f'' [make_name_node ''x'' []], make_name_node ''z'' []])] \<and>
   sort_declarations_spec 0 2
        (initial_globals\<lparr>name_ids_sorted := [''x'' \<mapsto> 1, ''y'' \<mapsto> 2, ''z'' \<mapsto> 3],
           commands :=
             [(100, Node ''define-fun'' False True
                      [make_node ''f'' [make_name_node ''x'' []], make_name_node ''z'' []]),
              (200, Node ''declare-fun'' False True [make_name_node ''y'' []])]\<rparr>)
   = [(100, Node ''define-fun'' False True
              [make_node ''f'' [make_name_node ''x'' []], make_name_node ''z'' []]),
      (200, Node ''declare-fun'' False True [make_name_node ''y'' []])]"
  by (simp add: sort_declarations_def sort_declarations_spec_def spec_tag_def lookup_sorted_def
      initial_globals_def make_name_node_def make_node_def is_var_def get_name_id_sorted_def
      unquote_def Let_def)

text \<open>
  Where the search stops at no node although a descendant is a name: the second loop of
  \<^verbatim>\<open>find_var\<close> returns in its first round, so the search goes down one child only.
  Here the name \<open>x\<close> is a descendant, registered as 1, and the tag is 0.
\<close>

lemma find_var_early_return_example:
  "fst (find_var (Node ''define-fun'' False True
          [make_node ''a'' [], Node [] False True [make_node ''b'' [], make_name_node ''x'' []]])
        (initial_globals\<lparr>name_ids_sorted := [''x'' \<mapsto> 1]\<rparr>)) = 0 \<and>
   spec_tag (initial_globals\<lparr>name_ids_sorted := [''x'' \<mapsto> 1]\<rparr>)
     (Node ''define-fun'' False True
          [make_node ''a'' [], Node [] False True [make_node ''b'' [], make_name_node ''x'' []]]) = 1"
  by (simp add: spec_tag_def lookup_sorted_def initial_globals_def make_name_node_def
      make_node_def is_var_def get_name_id_sorted_def unquote_def Let_def)

text \<open>
  The registry knows \<open>p\<close> as 1 and \<open>q\<close> as 2; the run is the first three commands.
  \<open>r\<close> and \<open>s\<close> have the tag 0 and come first, \<open>s\<close> (at the lower address) before
  \<open>r\<close>.
\<close>

theorem sort_declarations_by_tag_then_address_witness:
  "(0::nat) < 3 \<and>
   (\<exists>st'. sort_declarations 0 3
        (initial_globals\<lparr>name_ids_sorted := [''p'' \<mapsto> 1, ''q'' \<mapsto> 2],
           commands :=
             [(100, Node ''declare-fun'' False True [make_name_node ''q'' []]),
              (300, Node ''declare-fun'' False True [make_name_node ''r'' []]),
              (200, Node ''declare-fun'' False True [make_name_node ''s'' []]),
              (400, Node ''declare-fun'' False True [make_name_node ''p'' []])]\<rparr>) = Inr st' \<and>
      commands st' =
             [(200, Node ''declare-fun'' False True [make_name_node ''s'' []]),
              (300, Node ''declare-fun'' False True [make_name_node ''r'' []]),
              (100, Node ''declare-fun'' False True [make_name_node ''q'' []]),
              (400, Node ''declare-fun'' False True [make_name_node ''p'' []])])"
proof -
  let ?st = "initial_globals\<lparr>name_ids_sorted := [''p'' \<mapsto> 1, ''q'' \<mapsto> 2],
           commands :=
             [(100, Node ''declare-fun'' False True [make_name_node ''q'' []]),
              (300, Node ''declare-fun'' False True [make_name_node ''r'' []]),
              (200, Node ''declare-fun'' False True [make_name_node ''s'' []]),
              (400, Node ''declare-fun'' False True [make_name_node ''p'' []])]\<rparr>"
  have h: "(0::nat) < 3" "3 \<le> length (commands ?st)" by simp_all
  have tags: "found_tag ?st (Node ''declare-fun'' False True [make_name_node ''q'' []]) = 2"
    "found_tag ?st (Node ''declare-fun'' False True [make_name_node ''r'' []]) = 0"
    "found_tag ?st (Node ''declare-fun'' False True [make_name_node ''s'' []]) = 0"
    by (simp_all add: found_tag_def make_name_node_def is_var_def lookup_sorted_def
        unquote_def initial_globals_def Let_def)
  from sort_declarations_by_tag_then_address [OF h] obtain st' where
    T: "sort_declarations 0 3 ?st = Inr st'"
      "commands st' = take 0 (commands ?st) @
        sort_key (\<lambda>cm. (found_tag ?st (snd cm), fst cm)) (take (3 - 0) (drop 0 (commands ?st))) @
        drop 3 (commands ?st)"
    by blast
  have "commands st' =
             [(200, Node ''declare-fun'' False True [make_name_node ''s'' []]),
              (300, Node ''declare-fun'' False True [make_name_node ''r'' []]),
              (100, Node ''declare-fun'' False True [make_name_node ''q'' []]),
              (400, Node ''declare-fun'' False True [make_name_node ''p'' []])]"
    unfolding T(2) by (simp add: tags)
  with T(1) h(1) show ?thesis by blast
qed

section \<open>The print pass by ranks: the generator\<close>














lemma print_node_sorted_skip:
  assumes "s = ''!'' \<and> \<not> keep_annotation (Node s nm np cs) ka"
  shows "print_node_sorted ka (Node s nm np cs) st =
     (case cs of [] \<Rightarrow> Inl Undefined_behaviour | c # cs' \<Rightarrow> print_node_sorted ka c st)"
  using assms by (subst print_node_sorted.simps) (rule if_P)

lemma print_node_sorted_print:
  assumes "\<not> (s = ''!'' \<and> \<not> keep_annotation (Node s nm np cs) ka)"
  shows "print_node_sorted ka (Node s nm np cs) st =
     (case print_open (Node s nm np cs) st of
        (name, st1) \<Rightarrow>
          (case print_children_sorted ka (s = []) cs st1 of
             Inl e \<Rightarrow> Inl e
           | Inr st2 \<Rightarrow> Inr (print_close (Node s nm np cs) name st2)))"
  using assms by (subst print_node_sorted.simps) (rule if_not_P)









section \<open>The print pass by ranks: the addresses of the nodes\<close>


lemma get_name_id_sorted_frame:
  "get_name_id_sorted n (st\<lparr>commands := buf\<rparr>)
     = (fst (get_name_id_sorted n st), (snd (get_name_id_sorted n st))\<lparr>commands := buf\<rparr>)"
  by (simp add: get_name_id_sorted_def Let_def split: option.splits)




lemma find_var_frame:
  "find_var n (st\<lparr>commands := buf\<rparr>) = (fst (find_var n st), (snd (find_var n st))\<lparr>commands := buf\<rparr>)"
  by (induction n st rule: find_var.induct)
    (auto simp: get_name_id_sorted_frame split: option.splits list.splits)

lemma tag_commands_frame:
  "tag_commands cs (st\<lparr>commands := buf\<rparr>)
     = (fst (tag_commands cs st), (snd (tag_commands cs st))\<lparr>commands := buf\<rparr>)"
  by (induction cs arbitrary: st) (simp_all add: find_var_frame split: prod.splits)

lemma put_frame: "put s (st\<lparr>commands := buf\<rparr>) = (put s st)\<lparr>commands := buf\<rparr>"
  by (simp add: put_def)

lemma make_annotation_name_frame:
  "make_annotation_name (st\<lparr>commands := buf\<rparr>)
     = (fst (make_annotation_name st), (snd (make_annotation_name st))\<lparr>commands := buf\<rparr>)"
  by (simp add: make_annotation_name_def)

lemma if_frame:
  "(if b then t\<lparr>commands := buf\<rparr> else u\<lparr>commands := buf\<rparr>) = (if b then t else u)\<lparr>commands := buf\<rparr>"
  by simp

lemma print_close_frame:
  "print_close n name (st\<lparr>commands := buf\<rparr>) = (print_close n name st)\<lparr>commands := buf\<rparr>"
  by (simp add: print_close_def Let_def put_frame if_frame split del: if_split cong: if_cong)

lemma print_open_frame:
  "print_open n (st\<lparr>commands := buf\<rparr>) = (fst (print_open n st), (snd (print_open n st))\<lparr>commands := buf\<rparr>)"
proof -
  define st1 where "st1 = (if needs_parens n then put ''('' st else st)"
  define st1x where "st1x = (if needs_parens n then put ''('' (st\<lparr>commands := buf\<rparr>) else st\<lparr>commands := buf\<rparr>)"
  define st2 where "st2 = (if symbol n \<noteq> []
                 then (if no_scramble st1 \<or> \<not> is_name n then put (symbol n) st1
                       else (case get_name_id_sorted (symbol n) st1 of
                               (name_id, st') \<Rightarrow>
                                 if name_id = 0 then put (symbol n) st'
                                 else put (make_name name_id) st'))
                 else st1)"
  define st2x where "st2x = (if symbol n \<noteq> []
                 then (if no_scramble st1x \<or> \<not> is_name n then put (symbol n) st1x
                       else (case get_name_id_sorted (symbol n) st1x of
                               (name_id, st') \<Rightarrow>
                                 if name_id = 0 then put (symbol n) st'
                                 else put (make_name name_id) st'))
                 else st1x)"
  define p where "p = (if gen_ucore st2 \<and> symbol n = ''assert''
                         then make_annotation_name st2 else ([], st2))"
  define px where "px = (if gen_ucore st2x \<and> symbol n = ''assert''
                         then make_annotation_name st2x else ([], st2x))"
  have 1: "st1x = st1\<lparr>commands := buf\<rparr>"
    unfolding st1_def st1x_def by (simp add: put_frame)
  have 2: "st2x = st2\<lparr>commands := buf\<rparr>"
    unfolding st2_def st2x_def 1 by (simp add: put_frame get_name_id_sorted_frame split: prod.splits)
  have 3: "px = (fst p, (snd p)\<lparr>commands := buf\<rparr>)"
    unfolding p_def px_def 2 by (simp add: make_annotation_name_frame)
  have A: "print_open n (st\<lparr>commands := buf\<rparr>)
      = (fst px, if fst px \<noteq> [] then put '' (!'' (snd px) else snd px)"
    unfolding px_def st2x_def st1x_def print_open_def Let_def case_prod_beta by (rule refl)
  have B: "print_open n st = (fst p, if fst p \<noteq> [] then put '' (!'' (snd p) else snd p)"
    unfolding p_def st2_def st1_def print_open_def Let_def case_prod_beta by (rule refl)
  show ?thesis unfolding A B 3 by (simp add: put_frame)
qed

lemma print_node_sorted_frame:
  "print_node_sorted ka n (st\<lparr>commands := buf\<rparr>)
     = map_sum id (\<lambda>t. t\<lparr>commands := buf\<rparr>) (print_node_sorted ka n st)"
  "print_children_sorted ka nospace cs (st\<lparr>commands := buf\<rparr>)
     = map_sum id (\<lambda>t. t\<lparr>commands := buf\<rparr>) (print_children_sorted ka nospace cs st)"
proof (induction ka n st and ka nospace cs st rule: print_node_sorted_print_children_sorted.induct)
  case (1 ka s nm np cs st)
  show ?case
  proof (cases "s = ''!'' \<and> \<not> keep_annotation (Node s nm np cs) ka")
    case True
    show ?thesis
    proof (cases cs)
      case Nil
      then show ?thesis unfolding print_node_sorted_skip [OF True] by simp
    next
      case (Cons c cs')
      with "1.IH"(1) [OF True Cons] show ?thesis
        unfolding print_node_sorted_skip [OF True] by simp
    qed
  next
    case False
    obtain name st1 where o: "print_open (Node s nm np cs) st = (name, st1)"
      by (cases "print_open (Node s nm np cs) st")
    have o': "print_open (Node s nm np cs) (st\<lparr>commands := buf\<rparr>) = (name, st1\<lparr>commands := buf\<rparr>)"
      unfolding print_open_frame o by simp
    note IH = "1.IH"(2) [OF False o [symmetric]]
    show ?thesis
    proof (cases "print_children_sorted ka (s = []) cs st1")
      case (Inl e)
      with IH show ?thesis
        unfolding print_node_sorted_print [OF False] o o' by simp
    next
      case (Inr st2)
      with IH show ?thesis
        unfolding print_node_sorted_print [OF False] o o' by (simp add: print_close_frame)
    qed
  qed
next
  case (2 ka nospace st)
  show ?case by simp
next
  case (3 ka nospace c cs st)
  let ?st0 = "if nospace then st else put '' '' st"
  have e: "(if nospace then st\<lparr>commands := buf\<rparr> else put '' '' (st\<lparr>commands := buf\<rparr>)) = ?st0\<lparr>commands := buf\<rparr>"
    by (simp add: put_frame)
  show ?case
  proof (cases "print_node_sorted ka c ?st0")
    case (Inl e')
    with "3.IH"(1) show ?thesis unfolding print_children_sorted.simps(2) e by simp
  next
    case (Inr st')
    with "3.IH"(1) "3.IH"(2) [OF Inr] show ?thesis unfolding print_children_sorted.simps(2) e by simp
  qed
qed

lemma print_command_sorted_frame:
  "print_command_sorted ka n (st\<lparr>commands := buf\<rparr>)
     = map_sum id (\<lambda>t. t\<lparr>commands := buf\<rparr>) (print_command_sorted ka n st)"
  unfolding print_command_sorted_def print_node_sorted_frame
  by (cases "print_node_sorted ka n st") (simp_all add: put_frame)

lemma print_all_frame:
  "print_all ka cmds (st\<lparr>commands := buf\<rparr>)
     = map_sum id (\<lambda>t. t\<lparr>commands := buf\<rparr>) (print_all ka cmds st)"
proof (induction cmds arbitrary: st)
  case Nil
  show ?case by simp
next
  case (Cons cm cmds)
  show ?case
    unfolding print_all.simps print_command_sorted_frame
    by (cases "print_command_sorted ka (snd cm) st") (simp_all add: Cons)
qed

lemma get_ranks_frame: "get_ranks k (st\<lparr>commands := buf\<rparr>) = get_ranks k st"
  by (simp add: get_ranks_def)



lemma relocate_update:
  "relocate \<phi> (st\<lparr>commands := cs\<rparr>) = st\<lparr>commands := map (move \<phi>) cs\<rparr>"
  by (simp add: relocate_def)





























section \<open>The print pass by ranks: the result\<close>
















lemma appends_cout: "cout t = cout st \<Longrightarrow> appends st t"
  by (simp add: appends_def)















section \<open>The print pass by ranks: two runs\<close>











end
